theory Spec2Isabelle
  imports Complex_Main "HOL-Library.AList" "HOL-Library.Sublist" "HOL-Library.Multiset"
begin


section \<open>Python values, dictionaries and exceptions\<close>

text \<open>
  The values the program stores in its result dictionaries and writes to the log.
  A Python \<open>dict\<close> is an association list: Python dictionaries keep insertion order,
  assigning to an existing key keeps the key's position, and a new key goes to the end,
  which is what \<open>AList.update\<close> does. A float is given by its value, a rational; the
  arithmetic on floats is not computed here but taken from the environment.
\<close>

datatype pyval =
    PNone
  | PBool bool
  | PInt int
  | PFloat rat
  | PStr string
  | PList "pyval list"
  | PDict "(string \<times> pyval) list"

type_synonym pydict = "(string \<times> pyval) list"

text \<open>\<open>d.update({k1: v1, ...})\<close>: the items are assigned from left to right.\<close>

definition dict_update :: "pydict \<Rightarrow> pydict \<Rightarrow> pydict" where
  "dict_update d items = fold (\<lambda>(k, v). AList.update k v) items d"

text \<open>
  A raised exception. \<open>PyException msg\<close> is an instance of \<open>Exception\<close> (or of a subclass)
  with \<open>str(e) = msg\<close>; \<open>PyBaseException msg\<close> is an exception outside \<open>Exception\<close>
  (\<open>asyncio.CancelledError\<close>, \<open>KeyboardInterrupt\<close>, \<open>SystemExit\<close>), which
  \<open>except Exception\<close> does not catch and a bare \<open>except:\<close> does.
\<close>

datatype exn = PyException string | PyBaseException string

text \<open>
  A field of a result is present when the dictionary has the key with a value other
  than \<open>None\<close>: the failure path stores \<open>"status_code": None\<close>, which the log shows as
  \<open>null\<close>, and that is the absent status code.
\<close>

definition present :: "pydict \<Rightarrow> string \<Rightarrow> bool" where
  "present d k = (case map_of d k of None \<Rightarrow> False | Some v \<Rightarrow> v \<noteq> PNone)"

section \<open>The tester object\<close>

record tester =
  base_url :: string
  total_requests :: int
  concurrent_requests :: int
  headers :: pydict
  params :: pydict
  method' :: string
  log_file :: string
  timeout :: rat
  results :: "pydict list"

text \<open>\<open>x or {}\<close>: \<open>None\<close> and the empty dictionary both give the empty dictionary.\<close>

definition or_empty :: "pydict option \<Rightarrow> pydict" where
  "or_empty x = (case x of None \<Rightarrow> [] | Some d \<Rightarrow> if d = [] then [] else d)"

section \<open>The environment of a run\<close>

text \<open>
  An \<open>httpx.Response\<close> as the program observes it: the attributes it reads, what
  \<open>response.json()\<close> does (\<open>Inl\<close>: it raises) and what \<open>response.text\<close> does
  (\<open>Inr\<close>: the decoded text; \<open>Inl msg\<close>: the decoder raises an \<open>Exception\<close> with
  \<open>str(e) = msg\<close>, as the codec of a declared charset \<open>utf-16\<close> does on a body without
  a byte order mark). The three views of the body are independent fields, so nothing is
  assumed about how they are related.
\<close>

record response =
  status_code :: int
  response_headers :: pydict
  content :: string
  text' :: "string + string"
  json :: "exn + pyval"

text \<open>
  What one call of \<open>make_request\<close> meets: the readings of \<open>time.time()\<close> (at the
  start, after the request has returned or raised, and once more in the handler when an
  exception comes after the response), the timestamp \<open>datetime.now().isoformat()\<close>,
  what \<open>await client.request(...)\<close> does (\<open>Inr\<close>: it returns a response, of any
  status; \<open>Inl\<close>: it raises), and whether opening or writing the log file raises
  (\<open>log_fault\<close>). The await is assumed to resume: a request that never ends is outside
  the model.
\<close>

record exchange =
  start_time :: rat
  now_isoformat :: string
  request_outcome :: "exn + response"
  end_time :: rat
  handler_time :: rat
  log_fault :: "exn option"

text \<open>
  The environment of a run: the exchange that the request with a given id meets; the
  instant at which the event loop resumes the task of a request id (tasks awaited together
  finish in the order of these instants); for a request whose task is the first of its
  batch to raise, how many of the tasks of the batch that are still pending finish all
  the same before the exception has left \<open>run\<close> (\<open>stragglers\<close>); and three library
  functions taken as parameters: \<open>json.dumps\<close>, \<open>str.upper\<close>, and the float
  arithmetic \<open>round((end_time - start_time) * 1000, 2)\<close> as \<open>rounded_ms start_time end_time\<close>.
\<close>

record env =
  exchange_of :: "int \<Rightarrow> exchange"
  latency :: "int \<Rightarrow> nat"
  stragglers :: "int \<Rightarrow> nat"
  json_dumps :: "pydict \<Rightarrow> string"
  str_upper :: "string \<Rightarrow> string"
  rounded_ms :: "rat \<Rightarrow> rat \<Rightarrow> rat"

text \<open>
  \<open>APIStressTester.__init__\<close>: every argument is stored as it comes (the method in
  upper case, \<open>None\<close> for the headers or the parameters as the empty dictionary); no
  argument is checked. No later method assigns to a field of \<open>self\<close>, so the object is passed
  read-only to the methods below.
\<close>

definition init ::
  "env \<Rightarrow> string \<Rightarrow> int \<Rightarrow> int \<Rightarrow> pydict option \<Rightarrow> pydict option \<Rightarrow> string \<Rightarrow> string \<Rightarrow> rat
   \<Rightarrow> tester" where
  "init ev base_url_arg total_requests_arg concurrent_requests_arg headers_arg params_arg method_arg
     log_file_arg timeout_arg =
     \<lparr> base_url = base_url_arg,
       total_requests = total_requests_arg,
       concurrent_requests = concurrent_requests_arg,
       headers = or_empty headers_arg,
       params = or_empty params_arg,
       method' = str_upper ev method_arg,
       log_file = log_file_arg,
       timeout = timeout_arg,
       results = [] \<rparr>"

type_synonym files = "string \<rightharpoonup> string"

definition file_content :: "files \<Rightarrow> string \<Rightarrow> string" where
  "file_content fs p = (case fs p of None \<Rightarrow> [] | Some s \<Rightarrow> s)"

section \<open>The request executor\<close>

text \<open>
  \<open>_log_result\<close>: \<open>open(self.log_file, 'a')\<close> and one \<open>write\<close> of the serialised
  result and a newline. Append mode creates a missing file and keeps what the file holds.
  When the open or the write raises, the exception leaves the function.
\<close>

definition log_result :: "tester \<Rightarrow> env \<Rightarrow> exn option \<Rightarrow> files \<Rightarrow> pydict \<Rightarrow> (exn + unit) \<times> files" where
  "log_result self ev fault fs result =
     (case fault of
        Some x \<Rightarrow> (Inl x, fs)
      | None \<Rightarrow>
          (Inr (), fs(log_file self \<mapsto>
             file_content fs (log_file self) @ json_dumps ev result @ [CHR 0x0A])))"

text \<open>
  The body of \<open>make_request\<close> up to the call of \<open>_log_result\<close>: the result dictionary
  is created, then the \<open>try\<close> block either fills in the response fields or, in the
  handler of \<open>except Exception\<close>, the error fields. The handler of the bare
  \<open>except:\<close> around \<open>response.json()\<close> evaluates \<open>response.text\<close>; when that raises,
  the exception reaches \<open>except Exception\<close> after the response fields have been
  stored, and the handler overwrites \<open>status_code\<close> and \<open>success\<close>. An exception of the
  request outside \<open>Exception\<close> passes the handler.
\<close>

definition request_result :: "tester \<Rightarrow> env \<Rightarrow> int \<Rightarrow> exn + pydict" where
  "request_result self ev request_id =
     (let e = exchange_of ev request_id;
          result =
            [(''request_id'', PInt request_id),
             (''timestamp'', PStr (now_isoformat e)),
             (''url'', PStr (base_url self)),
             (''method'', PStr (method' self)),
             (''headers'', PDict (headers self)),
             (''params'', PDict (params self))]
      in case request_outcome e of
           Inr response \<Rightarrow>
             (let result = dict_update result
                    [(''status_code'', PInt (status_code response)),
                     (''response_time_ms'', PFloat (rounded_ms ev (start_time e) (end_time e))),
                     (''success'', PBool (200 \<le> status_code response \<and> status_code response < 300)),
                     (''response_headers'', PDict (response_headers response)),
                     (''content_length'', PInt (int (length (content response))))]
              in case json response of
                   Inr v \<Rightarrow> Inr (AList.update ''response_body'' v result)
                 | Inl _ \<Rightarrow>
                     (case text' response of
                        Inr s \<Rightarrow> Inr (AList.update ''response_body'' (PStr s) result)
                      | Inl msg \<Rightarrow>
                          Inr (dict_update result
                                 [(''status_code'', PNone),
                                  (''response_time_ms'',
                                     PFloat (rounded_ms ev (start_time e) (handler_time e))),
                                  (''success'', PBool False),
                                  (''error'', PStr msg)])))
         | Inl (PyException msg) \<Rightarrow>
             Inr (dict_update result
                    [(''status_code'', PNone),
                     (''response_time_ms'', PFloat (rounded_ms ev (start_time e) (end_time e))),
                     (''success'', PBool False),
                     (''error'', PStr msg)])
         | Inl (PyBaseException msg) \<Rightarrow> Inl (PyBaseException msg))"

text \<open>
  \<open>make_request\<close>: the result is built, logged and returned. The call of
  \<open>_log_result\<close> is outside the \<open>try\<close> block.
\<close>

definition make_request :: "tester \<Rightarrow> env \<Rightarrow> files \<Rightarrow> int \<Rightarrow> (exn + pydict) \<times> files" where
  "make_request self ev fs request_id =
     (case request_result self ev request_id of
        Inl x \<Rightarrow> (Inl x, fs)
      | Inr result \<Rightarrow>
          (case log_result self ev (log_fault (exchange_of ev request_id)) fs result of
             (Inl x, fs') \<Rightarrow> (Inl x, fs')
           | (Inr _, fs') \<Rightarrow> (Inr result, fs')))"

section \<open>The load driver\<close>

text \<open>
  What a run does, in order: \<open>Dispatched i\<close> is \<open>asyncio.create_task(make_request(client, i))\<close>,
  \<open>Gathered ts\<close> is \<open>await asyncio.gather(*tasks)\<close> on the tasks of the request ids
  \<open>ts\<close>, \<open>Completed i r\<close> is the task of request \<open>i\<close> returning the result \<open>r\<close> it has
  logged, \<open>Raised i x\<close> is that task ending with the exception \<open>x\<close>.
\<close>

datatype event =
    Dispatched int
  | Gathered "int list"
  | Completed int pydict
  | Raised int exn

record run_state =
  files_of :: files
  tasks :: "int list"
  trace :: "event list"

text \<open>
  The tasks awaited by one \<open>gather\<close> finish one after the other; a task runs from the
  end of its request to its \<open>return\<close> without an await, so its log line is written in
  one piece. The first exception of a task is the exception of \<open>gather\<close>. \<open>gather\<close>
  neither cancels nor awaits the tasks that are still pending: those of them that are
  ready before the exception has left \<open>run\<close> (\<open>stragglers\<close>) still run to their end
  and write their log line, and what they return or raise is dropped
  (\<open>finish_tasks\<close>). What becomes of the others is not part of the run.
\<close>

fun finish_tasks :: "tester \<Rightarrow> env \<Rightarrow> int list \<Rightarrow> run_state \<Rightarrow> run_state" where
  "finish_tasks self ev [] st = st"
| "finish_tasks self ev (j # js) st =
     (case make_request self ev (files_of st) j of
        (Inl x, fs') \<Rightarrow>
          finish_tasks self ev js (st\<lparr>files_of := fs', trace := trace st @ [Raised j x]\<rparr>)
      | (Inr r, fs') \<Rightarrow>
          finish_tasks self ev js (st\<lparr>files_of := fs', trace := trace st @ [Completed j r]\<rparr>))"

fun complete_tasks :: "tester \<Rightarrow> env \<Rightarrow> int list \<Rightarrow> run_state \<Rightarrow> exn option \<times> run_state" where
  "complete_tasks self ev [] st = (None, st)"
| "complete_tasks self ev (j # js) st =
     (case make_request self ev (files_of st) j of
        (Inl x, fs') \<Rightarrow>
          (Some x, finish_tasks self ev (take (stragglers ev j) js)
                     (st\<lparr>files_of := fs', trace := trace st @ [Raised j x]\<rparr>))
      | (Inr r, fs') \<Rightarrow>
          complete_tasks self ev js (st\<lparr>files_of := fs', trace := trace st @ [Completed j r]\<rparr>))"

text \<open>
  \<open>await asyncio.gather(*tasks)\<close>: the tasks finish in the order of their instants
  (\<open>sort_key\<close> is stable, so any order of completion is the order of some \<open>latency\<close>).
  The list of results that \<open>gather\<close> returns is dropped by the caller.
\<close>

definition gather :: "tester \<Rightarrow> env \<Rightarrow> run_state \<Rightarrow> exn option \<times> run_state" where
  "gather self ev st =
     complete_tasks self ev (sort_key (latency ev) (tasks st))
       (st\<lparr>trace := trace st @ [Gathered (tasks st)]\<rparr>)"

text \<open>\<open>range(n)\<close>: empty when \<open>n \<le> 0\<close>.\<close>

definition range_py :: "int \<Rightarrow> int list" where
  "range_py n = map int [0..<nat n]"

text \<open>The \<open>for\<close> loop of \<open>run\<close>, over the remaining values of \<open>i\<close>.\<close>

fun run_loop :: "tester \<Rightarrow> env \<Rightarrow> int list \<Rightarrow> run_state \<Rightarrow> exn option \<times> run_state" where
  "run_loop self ev [] st = (None, st)"
| "run_loop self ev (i # is) st =
     (let st1 = st\<lparr>tasks := tasks st @ [i + 1], trace := trace st @ [Dispatched (i + 1)]\<rparr>
      in if int (length (tasks st1)) \<ge> concurrent_requests self
         then (case gather self ev st1 of
                 (Some x, st2) \<Rightarrow> (Some x, st2)
               | (None, st2) \<Rightarrow> run_loop self ev is (st2\<lparr>tasks := []\<rparr>))
         else run_loop self ev is st1)"

text \<open>
  \<open>APIStressTester.run\<close>. The function has no \<open>return\<close> statement: when it ends
  without an exception its value is \<open>None\<close>, which is \<open>Inr None\<close> here; \<open>Inl x\<close> is the
  exception \<open>x\<close> leaving \<open>run\<close>. The second component is the file system and the
  trace at that moment. The \<open>httpx.AsyncClient\<close>, with its limits and its timeout, is
  the transport: what a request gets from it is the \<open>exchange_of\<close> the environment.
\<close>

definition run :: "tester \<Rightarrow> env \<Rightarrow> files \<Rightarrow> (exn + pydict list option) \<times> run_state" where
  "run self ev fs =
     (case run_loop self ev (range_py (total_requests self))
             \<lparr>files_of = fs, tasks = [], trace = []\<rparr> of
        (Some x, st) \<Rightarrow> (Inl x, st)
      | (None, st) \<Rightarrow>
          if tasks st \<noteq> []
          then (case gather self ev st of
                  (Some x, st') \<Rightarrow> (Inl x, st')
                | (None, st') \<Rightarrow> (Inr None, st'))
          else (Inr None, st))"

text \<open>
  \<open>run_stress_test\<close>: the parent directory is created, the log file is opened in
  write mode, which empties it, and closed; then the tester is built and run.
  \<open>mkdir_fault\<close> and \<open>open_fault\<close> say whether these two steps raise.
\<close>

definition run_stress_test ::
  "string \<Rightarrow> int \<Rightarrow> int \<Rightarrow> pydict option \<Rightarrow> pydict option \<Rightarrow> string \<Rightarrow> string \<Rightarrow> rat \<Rightarrow>
   exn option \<Rightarrow> exn option \<Rightarrow> env \<Rightarrow> files \<Rightarrow> (exn + pydict list option) \<times> run_state" where
  "run_stress_test url total_requests_arg concurrent_requests_arg headers_arg params_arg method_arg
     log_file_arg timeout_arg mkdir_fault open_fault ev fs =
     (case mkdir_fault of
        Some x \<Rightarrow> (Inl x, \<lparr>files_of = fs, tasks = [], trace = []\<rparr>)
      | None \<Rightarrow>
          (case open_fault of
             Some x \<Rightarrow> (Inl x, \<lparr>files_of = fs, tasks = [], trace = []\<rparr>)
           | None \<Rightarrow>
               (let fs1 = fs(log_file_arg \<mapsto> []);
                    tester = init ev url total_requests_arg concurrent_requests_arg headers_arg
                               params_arg method_arg log_file_arg timeout_arg
                in case run tester ev fs1 of
                     (Inl x, st) \<Rightarrow> (Inl x, st)
                   | (Inr _, st) \<Rightarrow> (Inr None, st))))"

section \<open>Reading a trace\<close>

text \<open>The request ids dispatched, the batches awaited and the results returned, in order.\<close>

fun dispatched :: "event list \<Rightarrow> int list" where
  "dispatched [] = []"
| "dispatched (Dispatched i # tr) = i # dispatched tr"
| "dispatched (e # tr) = dispatched tr"

fun gathered :: "event list \<Rightarrow> int list list" where
  "gathered [] = []"
| "gathered (Gathered ts # tr) = ts # gathered tr"
| "gathered (e # tr) = gathered tr"

fun completed :: "event list \<Rightarrow> (int \<times> pydict) list" where
  "completed [] = []"
| "completed (Completed i r # tr) = (i, r) # completed tr"
| "completed (e # tr) = completed tr"

fun raised :: "event list \<Rightarrow> (int \<times> exn) list" where
  "raised [] = []"
| "raised (Raised i x # tr) = (i, x) # raised tr"
| "raised (e # tr) = raised tr"

text \<open>
  The executor invocations in flight after a trace: the tasks created and not yet
  finished (returned or raised).
\<close>

definition in_flight :: "event list \<Rightarrow> int" where
  "in_flight tr =
     int (length (dispatched tr)) - int (length (completed tr)) - int (length (raised tr))"

section \<open>Notions used to state the properties\<close>

text \<open>
  The exception with which \<open>make_request\<close> for request \<open>j\<close> ends, if it ends with
  one: an exception of the request that \<open>except Exception\<close> does not catch, or else
  the exception of the log append. It does not depend on the files: see
  \<open>raises_make_request\<close> below.
\<close>

definition raises :: "env \<Rightarrow> int \<Rightarrow> exn option" where
  "raises ev j =
     (case request_outcome (exchange_of ev j) of
        Inl (PyBaseException msg) \<Rightarrow> Some (PyBaseException msg)
      | _ \<Rightarrow> log_fault (exchange_of ev j))"

text \<open>
  What the body-parsing step of \<open>make_request\<close> gives for a response: \<open>Inr\<close> the value
  it stores under \<open>response_body\<close>, or \<open>Inl\<close> the message of the exception of
  \<open>response.text\<close>.
\<close>

definition response_body :: "response \<Rightarrow> string + pyval" where
  "response_body resp =
     (case json resp of
        Inr v \<Rightarrow> Inr v
      | Inl _ \<Rightarrow> (case text' resp of Inr s \<Rightarrow> Inr (PStr s) | Inl msg \<Rightarrow> Inl msg))"

text \<open>The result dictionary that \<open>make_request\<close> builds for request \<open>j\<close>.\<close>

definition result_of :: "tester \<Rightarrow> env \<Rightarrow> int \<Rightarrow> pydict" where
  "result_of self ev j =
     (case request_result self ev j of Inr r \<Rightarrow> r | Inl _ \<Rightarrow> [])"

text \<open>
  The events of tasks finishing in the order \<open>js\<close>: after \<open>gather\<close> has its
  exception every task that still finishes leaves its event (\<open>finish_events\<close>); before,
  the tasks return up to the first one that raises, and then the stragglers of that one
  finish (\<open>completion_events\<close>). \<open>first_raise\<close> is the exception of \<open>gather\<close>.
\<close>

fun finish_events :: "tester \<Rightarrow> env \<Rightarrow> int list \<Rightarrow> event list" where
  "finish_events self ev [] = []"
| "finish_events self ev (j # js) =
     (case raises ev j of
        Some x \<Rightarrow> Raised j x
      | None \<Rightarrow> Completed j (result_of self ev j)) # finish_events self ev js"

fun completion_events :: "tester \<Rightarrow> env \<Rightarrow> int list \<Rightarrow> event list" where
  "completion_events self ev [] = []"
| "completion_events self ev (j # js) =
     (case raises ev j of
        Some x \<Rightarrow> Raised j x # finish_events self ev (take (stragglers ev j) js)
      | None \<Rightarrow> Completed j (result_of self ev j) # completion_events self ev js)"

fun first_raise :: "env \<Rightarrow> int list \<Rightarrow> exn option" where
  "first_raise ev [] = None"
| "first_raise ev (j # js) = (case raises ev j of Some x \<Rightarrow> Some x | None \<Rightarrow> first_raise ev js)"

text \<open>The log lines of the results returned in a trace, in the order of the trace.\<close>

definition log_lines :: "env \<Rightarrow> event list \<Rightarrow> string" where
  "log_lines ev tr = concat (map (\<lambda>(j, r). json_dumps ev r @ [CHR 0x0A]) (completed tr))"

text \<open>The request ids of a run, \<open>i + 1\<close> for \<open>i\<close> in \<open>range(n)\<close>.\<close>

definition request_ids :: "int \<Rightarrow> int list" where
  "request_ids n = map (\<lambda>i. i + 1) (range_py n)"

text \<open>
  Bookkeeping of request ids, at the head of the loop of \<open>run\<close> after \<open>k\<close> iterations
  (\<open>ids_inv\<close>), after a \<open>gather\<close> that returned (\<open>ids_done\<close>), and after a
  \<open>gather\<close> that raised \<open>x\<close> (\<open>ids_aborted\<close>): \<open>x\<close> is the first exception of the
  trace, and nothing is dispatched or awaited after it.
\<close>

definition ids_inv :: "tester \<Rightarrow> env \<Rightarrow> nat \<Rightarrow> run_state \<Rightarrow> bool" where
  "ids_inv self ev k st \<longleftrightarrow>
     dispatched (trace st) = map (\<lambda>i. int i + 1) [0..<k]
   \<and> raised (trace st) = []
   \<and> concat (gathered (trace st)) @ tasks st = dispatched (trace st)
   \<and> completed (trace st)
       = map (\<lambda>j. (j, result_of self ev j)) (concat (map (sort_key (latency ev)) (gathered (trace st))))
   \<and> (\<forall>j\<in>set (concat (gathered (trace st))). raises ev j = None)"

definition ids_done :: "tester \<Rightarrow> env \<Rightarrow> nat \<Rightarrow> run_state \<Rightarrow> bool" where
  "ids_done self ev k st \<longleftrightarrow>
     dispatched (trace st) = map (\<lambda>i. int i + 1) [0..<k]
   \<and> raised (trace st) = []
   \<and> concat (gathered (trace st)) = dispatched (trace st)
   \<and> completed (trace st)
       = map (\<lambda>j. (j, result_of self ev j)) (concat (map (sort_key (latency ev)) (gathered (trace st))))
   \<and> (\<forall>j\<in>set (dispatched (trace st)). raises ev j = None)"

definition ids_aborted :: "env \<Rightarrow> nat \<Rightarrow> exn \<Rightarrow> run_state \<Rightarrow> bool" where
  "ids_aborted ev k x st \<longleftrightarrow>
     dispatched (trace st) = map (\<lambda>i. int i + 1) [0..<k]
   \<and> concat (gathered (trace st)) = dispatched (trace st)
   \<and> (\<exists>j tr' tr''. trace st = tr' @ Raised j x # tr'' \<and> raises ev j = Some x \<and> raised tr' = []
          \<and> dispatched tr'' = [] \<and> gathered tr'' = [] \<and> j \<in> set (dispatched (trace st)))"

text \<open>
  The number of tasks at which the loop awaits them. The test
  \<open>len(tasks) >= self.concurrent_requests\<close> comes after the append, so a batch has
  at least one task, also when \<open>concurrent_requests\<close> is zero or negative.
\<close>

definition batch_size :: "tester \<Rightarrow> int" where
  "batch_size self = max 1 (concurrent_requests self)"

text \<open>At no point of the trace are more than \<open>c\<close> invocations in flight.\<close>

definition bounded_in_flight :: "int \<Rightarrow> event list \<Rightarrow> bool" where
  "bounded_in_flight c tr \<longleftrightarrow> (\<forall>p\<le>length tr. in_flight (take p tr) \<le> c)"

text \<open>
  Whenever request \<open>j\<close> is dispatched, the invocations in flight are the \<open>(j - 1) mod c\<close>
  earlier requests of its own batch: a request that opens a batch is dispatched with
  nothing in flight.
\<close>

definition batch_aligned :: "int \<Rightarrow> event list \<Rightarrow> bool" where
  "batch_aligned c tr \<longleftrightarrow>
     (\<forall>p<length tr. \<forall>j. tr ! p = Dispatched j \<longrightarrow> in_flight (take p tr) = (j - 1) mod c)"

text \<open>
  The state of the loop of \<open>run\<close>: at its head after \<open>k\<close> iterations
  (\<open>flight_inv\<close>), before a \<open>gather\<close> (\<open>flight_mid\<close>), and what holds of the trace
  at the end (\<open>flight_post\<close>).
\<close>

definition flight_inv :: "tester \<Rightarrow> nat \<Rightarrow> run_state \<Rightarrow> bool" where
  "flight_inv self k st \<longleftrightarrow>
     in_flight (trace st) = int (length (tasks st))
   \<and> int (length (tasks st)) = int k mod batch_size self
   \<and> bounded_in_flight (batch_size self) (trace st)
   \<and> batch_aligned (batch_size self) (trace st)
   \<and> (\<forall>b\<in>set (gathered (trace st)). int (length b) = batch_size self)"

definition flight_mid :: "tester \<Rightarrow> run_state \<Rightarrow> bool" where
  "flight_mid self st \<longleftrightarrow>
     in_flight (trace st) = int (length (tasks st))
   \<and> tasks st \<noteq> []
   \<and> int (length (tasks st)) \<le> batch_size self
   \<and> bounded_in_flight (batch_size self) (trace st)
   \<and> batch_aligned (batch_size self) (trace st)
   \<and> (\<forall>b\<in>set (gathered (trace st)). int (length b) = batch_size self)"

definition flight_post :: "tester \<Rightarrow> event list \<Rightarrow> bool" where
  "flight_post self tr \<longleftrightarrow>
     bounded_in_flight (batch_size self) tr
   \<and> batch_aligned (batch_size self) tr
   \<and> (\<forall>b\<in>set (gathered tr). b \<noteq> [] \<and> int (length b) \<le> batch_size self)
   \<and> (\<forall>b\<in>set (butlast (gathered tr)). int (length b) = batch_size self)"

text \<open>The trace of a run.\<close>

definition run_trace :: "tester \<Rightarrow> env \<Rightarrow> files \<Rightarrow> event list" where
  "run_trace self ev fs = trace (snd (run self ev fs))"

text \<open>
  The log file holds what it held before the run, followed by the lines of the results
  returned so far; no other file is touched.
\<close>

definition files_inv :: "tester \<Rightarrow> env \<Rightarrow> files \<Rightarrow> run_state \<Rightarrow> bool" where
  "files_inv self ev fs st \<longleftrightarrow>
     file_content (files_of st) (log_file self)
       = file_content fs (log_file self) @ log_lines ev (trace st)
   \<and> (\<forall>p. p \<noteq> log_file self \<longrightarrow> files_of st p = fs p)"

section \<open>A concrete run\<close>

text \<open>
  Three requests, two at a time. Request 1 gets a 200 with a JSON body, request 2 times
  out, request 3 gets a 500 with a body that is not JSON; within a batch the request with
  the higher id finishes first, and no task finishes after a first exception. In
  \<open>faulty_env\<close> the log append of request 2 fails. In \<open>two_fault_env\<close> the appends of
  requests 1 and 2 fail, with different errors, and the task of request 1 is ready when
  that of request 2 raises. In \<open>undecodable_env\<close> the text of the body of request 3
  cannot be decoded either.
\<close>

text \<open>
  The library functions of the concrete run: upper case of the ASCII letters, and the
  elapsed milliseconds rounded to the hundredth, ties to even, in exact arithmetic.
\<close>

definition ascii_upper_char :: "char \<Rightarrow> char" where
  "ascii_upper_char c =
     (let n = (of_char c :: nat) in if 97 \<le> n \<and> n \<le> 122 then char_of (n - 32) else c)"

definition ascii_upper :: "string \<Rightarrow> string" where
  "ascii_upper s = map ascii_upper_char s"

definition round_half_even :: "rat \<Rightarrow> int" where
  "round_half_even x =
     (let f = \<lfloor>x\<rfloor>; d = x - of_int f
      in if d < 1 / 2 then f else if 1 / 2 < d then f + 1 else if even f then f else f + 1)"

definition exact_rounded_ms :: "rat \<Rightarrow> rat \<Rightarrow> rat" where
  "exact_rounded_ms start_time_arg end_time_arg =
     of_int (round_half_even ((end_time_arg - start_time_arg) * 1000 * 100)) / 100"

definition demo_response :: "int \<Rightarrow> response" where
  "demo_response i =
     (if i = 1 then \<lparr>status_code = 200, response_headers = [], content = ''{}'',
                      text' = Inr ''{}'', json = Inr (PDict [])\<rparr>
      else \<lparr>status_code = 500, response_headers = [], content = ''plain text'',
             text' = Inr ''plain text'', json = Inl (PyException ''Expecting value'')\<rparr>)"

definition demo_exchange :: "int \<Rightarrow> exchange" where
  "demo_exchange i =
     \<lparr> start_time = 0,
       now_isoformat = ''2024-01-01T00:00:00'',
       request_outcome =
         (if i = 2 then Inl (PyException ''timed out'') else Inr (demo_response i)),
       end_time = 1 / 8,
       handler_time = 1 / 4,
       log_fault = None \<rparr>"

definition demo_dumps :: "pydict \<Rightarrow> string" where
  "demo_dumps r =
     (case map_of r ''request_id'' of
        Some (PInt i) \<Rightarrow> (if i = 1 then ''{1}'' else if i = 2 then ''{2}'' else ''{3}'')
      | _ \<Rightarrow> ''{}'')"

definition demo_env :: env where
  "demo_env =
     \<lparr> exchange_of = demo_exchange,
       latency = (\<lambda>i. nat (10 - i)),
       stragglers = (\<lambda>i. 0),
       json_dumps = demo_dumps,
       str_upper = ascii_upper,
       rounded_ms = exact_rounded_ms \<rparr>"

definition demo_tester :: tester where
  "demo_tester = init demo_env ''http://localhost/todos'' 3 2 None None ''GET'' ''log.jsonl'' 60"

definition faulty_env :: env where
  "faulty_env = demo_env\<lparr>exchange_of :=
     (\<lambda>i. (demo_exchange i)\<lparr>log_fault := (if i = 2 then Some (PyException ''Permission denied'') else None)\<rparr>)\<rparr>"

definition two_fault_env :: env where
  "two_fault_env = demo_env
     \<lparr> exchange_of :=
         (\<lambda>i. (demo_exchange i)
            \<lparr>log_fault := (if i = 1 then Some (PyException ''No space left on device'')
                           else if i = 2 then Some (PyException ''Permission denied'')
                           else None)\<rparr>),
       stragglers := (\<lambda>i. 1) \<rparr>"

definition undecodable_env :: env where
  "undecodable_env = demo_env\<lparr>exchange_of :=
     (\<lambda>i. (demo_exchange i)
        \<lparr>request_outcome :=
           (if i = 3
            then Inr ((demo_response 3)\<lparr>text' := Inl ''UTF-16 stream does not start with BOM''\<rparr>)
            else request_outcome (demo_exchange i))\<rparr>)\<rparr>"

text \<open>
  As \<open>faulty_env\<close>, but the task of request 1 is ready when that of request 2 raises.
\<close>

definition straggler_env :: env where
  "straggler_env = faulty_env\<lparr>stragglers := (\<lambda>i. 1)\<rparr>"

text \<open>The same tester with \<open>concurrent_requests = 0\<close>.\<close>

definition zero_tester :: tester where
  "zero_tester = init demo_env ''http://localhost/todos'' 3 0 None None ''GET'' ''log.jsonl'' 60"

text \<open>A file system in which the log file and another file already exist.\<close>

definition old_files :: files where
  "old_files = [''log.jsonl'' \<mapsto> ''old\<newline>'', ''notes.txt'' \<mapsto> ''keep'']"

section \<open>Lemmas\<close>

lemma outcome_cases:
  obtains resp where "request_outcome e = Inr resp"
  | msg where "request_outcome e = Inl (PyException msg)"
  | msg where "request_outcome e = Inl (PyBaseException msg)"
  by (cases "request_outcome e") (metis exn.exhaust, blast)

lemma body_cases:
  obtains (stored) resp v where "request_outcome e = Inr resp" "response_body resp = Inr v"
  | (undecodable) resp msg where "request_outcome e = Inr resp" "response_body resp = Inl msg"
  | (failed) msg where "request_outcome e = Inl (PyException msg)"
  | (uncaught) msg where "request_outcome e = Inl (PyBaseException msg)"
proof (cases e rule: outcome_cases)
  case (1 resp)
  with that(1,2) show ?thesis by (cases "response_body resp") blast+
next
  case (2 msg)
  with that(3) show ?thesis by blast
next
  case (3 msg)
  with that(4) show ?thesis by blast
qed

lemma request_result_Inl_iff:
  "request_result self ev i = Inl x \<longleftrightarrow>
     (\<exists>msg. x = PyBaseException msg \<and> request_outcome (exchange_of ev i) = Inl x)"
  by (cases "exchange_of ev i" rule: outcome_cases)
    (auto simp: request_result_def Let_def split: sum.splits)

lemma make_request_eq:
  "make_request self ev fs j =
     (case raises ev j of
        Some x \<Rightarrow> (Inl x, fs)
      | None \<Rightarrow> (Inr (result_of self ev j),
                 fs(log_file self \<mapsto> file_content fs (log_file self)
                      @ json_dumps ev (result_of self ev j) @ [CHR 0x0A])))"
proof (cases "request_result self ev j")
  case (Inl x)
  then obtain msg where "x = PyBaseException msg" "request_outcome (exchange_of ev j) = Inl x"
    by (auto simp: request_result_Inl_iff)
  with Inl show ?thesis by (simp add: make_request_def raises_def)
next
  case (Inr r)
  have "request_outcome (exchange_of ev j) \<noteq> Inl (PyBaseException msg)" for msg
    using Inr request_result_Inl_iff [of self ev j "PyBaseException msg"] by auto
  then have "raises ev j = log_fault (exchange_of ev j)"
    by (cases "exchange_of ev j" rule: outcome_cases) (auto simp: raises_def)
  with Inr show ?thesis
    by (simp add: make_request_def result_of_def log_result_def split: option.splits)
qed

lemma raises_make_request:
  "raises ev j = Some x \<longleftrightarrow> fst (make_request self ev fs j) = Inl x"
  by (simp add: make_request_eq split: option.splits)

lemma dispatched_append [simp]: "dispatched (xs @ ys) = dispatched xs @ dispatched ys"
  by (induction xs rule: dispatched.induct) simp_all

lemma gathered_append [simp]: "gathered (xs @ ys) = gathered xs @ gathered ys"
  by (induction xs rule: gathered.induct) simp_all

lemma completed_append [simp]: "completed (xs @ ys) = completed xs @ completed ys"
  by (induction xs rule: completed.induct) simp_all

lemma raised_append [simp]: "raised (xs @ ys) = raised xs @ raised ys"
  by (induction xs rule: raised.induct) simp_all

lemma log_lines_append [simp]: "log_lines ev (xs @ ys) = log_lines ev xs @ log_lines ev ys"
  by (simp add: log_lines_def)

lemma finish_events_dispatched [simp]: "dispatched (finish_events self ev js) = []"
  by (induction js) (simp_all split: option.splits)

lemma finish_events_gathered [simp]: "gathered (finish_events self ev js) = []"
  by (induction js) (simp_all split: option.splits)

lemma completion_events_dispatched [simp]: "dispatched (completion_events self ev js) = []"
  by (induction js) (simp_all split: option.splits)

lemma completion_events_gathered [simp]: "gathered (completion_events self ev js) = []"
  by (induction js) (simp_all split: option.splits)

lemma finish_tasks_eq:
  "finish_tasks self ev js st = st' \<Longrightarrow>
     tasks st' = tasks st
   \<and> trace st' = trace st @ finish_events self ev js
   \<and> file_content (files_of st') (log_file self)
       = file_content (files_of st) (log_file self) @ log_lines ev (finish_events self ev js)
   \<and> (\<forall>p. p \<noteq> log_file self \<longrightarrow> files_of st' p = files_of st p)"
proof (induction js arbitrary: st)
  case Nil
  then show ?case by (auto simp: log_lines_def)
next
  case (Cons j js)
  show ?case
  proof (cases "raises ev j")
    case (Some x)
    from Cons.prems have "finish_tasks self ev js (st\<lparr>trace := trace st @ [Raised j x]\<rparr>) = st'"
      by (simp add: make_request_eq Some)
    from Cons.IH [OF this] show ?thesis
      by (simp add: log_lines_def Some)
  next
    case None
    let ?st1 = "st\<lparr>files_of := (files_of st)(log_file self \<mapsto> file_content (files_of st) (log_file self)
                      @ json_dumps ev (result_of self ev j) @ [CHR 0x0A]),
                  trace := trace st @ [Completed j (result_of self ev j)]\<rparr>"
    from Cons.prems None have "finish_tasks self ev js ?st1 = st'"
      by (simp add: make_request_eq)
    from Cons.IH [OF this] show ?thesis
      by (simp add: log_lines_def file_content_def None)
  qed
qed

lemma complete_tasks_eq:
  "complete_tasks self ev js st = (r, st') \<Longrightarrow>
     r = first_raise ev js
   \<and> tasks st' = tasks st
   \<and> trace st' = trace st @ completion_events self ev js
   \<and> file_content (files_of st') (log_file self)
       = file_content (files_of st) (log_file self) @ log_lines ev (completion_events self ev js)
   \<and> (\<forall>p. p \<noteq> log_file self \<longrightarrow> files_of st' p = files_of st p)"
proof (induction js arbitrary: st)
  case Nil
  then show ?case by (auto simp: log_lines_def)
next
  case (Cons j js)
  show ?case
  proof (cases "raises ev j")
    case (Some x)
    from Cons.prems have r: "r = Some x"
      and "finish_tasks self ev (take (stragglers ev j) js) (st\<lparr>trace := trace st @ [Raised j x]\<rparr>) = st'"
      by (simp_all add: make_request_eq Some)
    from finish_tasks_eq [OF this(2)] r show ?thesis
      by (simp add: log_lines_def Some)
  next
    case None
    let ?st1 = "st\<lparr>files_of := (files_of st)(log_file self \<mapsto> file_content (files_of st) (log_file self)
                      @ json_dumps ev (result_of self ev j) @ [CHR 0x0A]),
                  trace := trace st @ [Completed j (result_of self ev j)]\<rparr>"
    from Cons.prems None have "complete_tasks self ev js ?st1 = (r, st')"
      by (simp add: make_request_eq)
    from Cons.IH [OF this] show ?thesis
      by (simp add: log_lines_def file_content_def None)
  qed
qed

lemma gather_eq:
  "gather self ev st = (r, st') \<Longrightarrow>
     r = first_raise ev (sort_key (latency ev) (tasks st))
   \<and> tasks st' = tasks st
   \<and> trace st' = trace st @ Gathered (tasks st)
                 # completion_events self ev (sort_key (latency ev) (tasks st))
   \<and> file_content (files_of st') (log_file self)
       = file_content (files_of st) (log_file self)
         @ log_lines ev (completion_events self ev (sort_key (latency ev) (tasks st)))
   \<and> (\<forall>p. p \<noteq> log_file self \<longrightarrow> files_of st' p = files_of st p)"
  unfolding gather_def by (drule complete_tasks_eq) simp

lemma first_raise_None_iff: "first_raise ev js = None \<longleftrightarrow> (\<forall>j\<in>set js. raises ev j = None)"
  by (induction js) (auto split: option.splits)

lemma completion_events_no_raise:
  "first_raise ev js = None \<Longrightarrow>
     completion_events self ev js = map (\<lambda>j. Completed j (result_of self ev j)) js"
  by (induction js) (auto split: option.splits)

lemma completion_events_raise:
  "first_raise ev js = Some x \<Longrightarrow>
     \<exists>js1 j js2. js = js1 @ j # js2 \<and> raises ev j = Some x \<and> (\<forall>i\<in>set js1. raises ev i = None)
       \<and> completion_events self ev js
           = map (\<lambda>j. Completed j (result_of self ev j)) js1
             @ Raised j x # finish_events self ev (take (stragglers ev j) js2)"
proof (induction js)
  case Nil
  then show ?case by simp
next
  case (Cons a js)
  show ?case
  proof (cases "raises ev a")
    case None
    with Cons.prems have "first_raise ev js = Some x" by simp
    from Cons.IH [OF this] obtain js1 j js2 where
      *: "js = js1 @ j # js2" "raises ev j = Some x" "\<forall>i\<in>set js1. raises ev i = None"
         "completion_events self ev js = map (\<lambda>j. Completed j (result_of self ev j)) js1
            @ Raised j x # finish_events self ev (take (stragglers ev j) js2)"
      by blast
    show ?thesis
      apply (rule exI [of _ "a # js1"], rule exI [of _ j], rule exI [of _ js2])
      using * None by simp
  next
    case (Some y)
    with Cons.prems have "y = x" by simp
    show ?thesis
      apply (rule exI [of _ "[]"], rule exI [of _ a], rule exI [of _ js])
      using Some \<open>y = x\<close> by simp
  qed
qed

lemma completed_map_Completed [simp]:
  "completed (map (\<lambda>j. Completed j (f j)) js) = map (\<lambda>j. (j, f j)) js"
  by (induction js) simp_all

lemma raised_map_Completed [simp]: "raised (map (\<lambda>j. Completed j (f j)) js) = []"
  by (induction js) simp_all

lemma run_loop_rule:
  assumes start: "I n st"
    and keep: "\<And>k st. k < m \<Longrightarrow> I k st \<Longrightarrow> int (length (tasks st)) + 1 < concurrent_requests self \<Longrightarrow>
            I (Suc k) (st\<lparr>tasks := tasks st @ [int k + 1], trace := trace st @ [Dispatched (int k + 1)]\<rparr>)"
    and batch: "\<And>k st st'. k < m \<Longrightarrow> I k st \<Longrightarrow> concurrent_requests self \<le> int (length (tasks st)) + 1 \<Longrightarrow>
            gather self ev (st\<lparr>tasks := tasks st @ [int k + 1], trace := trace st @ [Dispatched (int k + 1)]\<rparr>)
              = (None, st') \<Longrightarrow> I (Suc k) (st'\<lparr>tasks := []\<rparr>)"
    and abort: "\<And>k st st' x. k < m \<Longrightarrow> I k st \<Longrightarrow> concurrent_requests self \<le> int (length (tasks st)) + 1 \<Longrightarrow>
            gather self ev (st\<lparr>tasks := tasks st @ [int k + 1], trace := trace st @ [Dispatched (int k + 1)]\<rparr>)
              = (Some x, st') \<Longrightarrow> Q (Some x, st')"
    and finish: "\<And>st. I m st \<Longrightarrow> Q (None, st)"
    and le: "n \<le> m"
  shows "Q (run_loop self ev (map int [n..<m]) st)"
  using start le
proof (induction "m - n" arbitrary: n st)
  case 0
  then show ?case by (simp add: finish)
next
  case (Suc d)
  then have lt: "n < m" by simp
  let ?st1 = "st\<lparr>tasks := tasks st @ [int n + 1], trace := trace st @ [Dispatched (int n + 1)]\<rparr>"
  have unfold: "map int [n..<m] = int n # map int [Suc n..<m]"
    using lt by (simp add: upt_conv_Cons)
  show ?case
  proof (cases "concurrent_requests self \<le> int (length (tasks st)) + 1")
    case False
    then have "I (Suc n) ?st1" using keep [OF lt Suc.prems(1)] by simp
    from Suc.hyps(1) [OF _ this] Suc.hyps(2) lt False show ?thesis
      by (simp add: unfold Let_def)
  next
    case True
    obtain r st' where g: "gather self ev ?st1 = (r, st')" by (cases "gather self ev ?st1")
    show ?thesis
    proof (cases r)
      case None
      with batch [OF lt Suc.prems(1) True] g have "I (Suc n) (st'\<lparr>tasks := []\<rparr>)" by simp
      from Suc.hyps(1) [OF _ this] Suc.hyps(2) lt True g None show ?thesis
        by (simp add: unfold Let_def)
    next
      case (Some x)
      with abort [OF lt Suc.prems(1) True] g have "Q (Some x, st')" by simp
      with True g Some show ?thesis by (simp add: unfold Let_def)
    qed
  qed
qed

lemma run_rule:
  assumes start: "I 0 \<lparr>files_of = fs, tasks = [], trace = []\<rparr>"
    and keep: "\<And>k st. k < nat (total_requests self) \<Longrightarrow> I k st \<Longrightarrow>
            int (length (tasks st)) + 1 < concurrent_requests self \<Longrightarrow>
            I (Suc k) (st\<lparr>tasks := tasks st @ [int k + 1], trace := trace st @ [Dispatched (int k + 1)]\<rparr>)"
    and batch: "\<And>k st st'. k < nat (total_requests self) \<Longrightarrow> I k st \<Longrightarrow>
            concurrent_requests self \<le> int (length (tasks st)) + 1 \<Longrightarrow>
            gather self ev (st\<lparr>tasks := tasks st @ [int k + 1], trace := trace st @ [Dispatched (int k + 1)]\<rparr>)
              = (None, st') \<Longrightarrow> I (Suc k) (st'\<lparr>tasks := []\<rparr>)"
    and abort: "\<And>k st st' x. k < nat (total_requests self) \<Longrightarrow> I k st \<Longrightarrow>
            concurrent_requests self \<le> int (length (tasks st)) + 1 \<Longrightarrow>
            gather self ev (st\<lparr>tasks := tasks st @ [int k + 1], trace := trace st @ [Dispatched (int k + 1)]\<rparr>)
              = (Some x, st') \<Longrightarrow> Q (Inl x, st')"
    and finish: "\<And>st. I (nat (total_requests self)) st \<Longrightarrow> tasks st = [] \<Longrightarrow> Q (Inr None, st)"
    and last_batch: "\<And>st st'. I (nat (total_requests self)) st \<Longrightarrow> tasks st \<noteq> [] \<Longrightarrow>
            gather self ev st = (None, st') \<Longrightarrow> Q (Inr None, st')"
    and last_abort: "\<And>st st' x. I (nat (total_requests self)) st \<Longrightarrow> tasks st \<noteq> [] \<Longrightarrow>
            gather self ev st = (Some x, st') \<Longrightarrow> Q (Inl x, st')"
  shows "Q (run self ev fs)"
proof -
  let ?Q' = "\<lambda>(r, st). case r of
                Some x \<Rightarrow> Q (Inl x, st)
              | None \<Rightarrow> if tasks st \<noteq> []
                        then (case gather self ev st of
                                (Some x, st') \<Rightarrow> Q (Inl x, st')
                              | (None, st') \<Rightarrow> Q (Inr None, st'))
                        else Q (Inr None, st)"
  have "?Q' (run_loop self ev (map int [0..<nat (total_requests self)]) \<lparr>files_of = fs, tasks = [], trace = []\<rparr>)"
  proof (rule run_loop_rule [where I = I and Q = ?Q'])
    show "I 0 \<lparr>files_of = fs, tasks = [], trace = []\<rparr>" by (rule start)
  next
    fix k st
    assume "k < nat (total_requests self)" "I k st" "int (length (tasks st)) + 1 < concurrent_requests self"
    then show "I (Suc k) (st\<lparr>tasks := tasks st @ [int k + 1], trace := trace st @ [Dispatched (int k + 1)]\<rparr>)"
      by (rule keep)
  next
    fix k st st'
    assume "k < nat (total_requests self)" "I k st" "concurrent_requests self \<le> int (length (tasks st)) + 1"
      "gather self ev (st\<lparr>tasks := tasks st @ [int k + 1], trace := trace st @ [Dispatched (int k + 1)]\<rparr>) = (None, st')"
    then show "I (Suc k) (st'\<lparr>tasks := []\<rparr>)" by (rule batch)
  next
    fix k st st' x
    assume "k < nat (total_requests self)" "I k st" "concurrent_requests self \<le> int (length (tasks st)) + 1"
      "gather self ev (st\<lparr>tasks := tasks st @ [int k + 1], trace := trace st @ [Dispatched (int k + 1)]\<rparr>) = (Some x, st')"
    then have "Q (Inl x, st')" by (rule abort)
    then show "?Q' (Some x, st')" by simp
  next
    fix st
    assume i: "I (nat (total_requests self)) st"
    show "?Q' (None, st)"
    proof (cases "tasks st = []")
      case True
      with finish [OF i] show ?thesis by simp
    next
      case False
      obtain r st' where g: "gather self ev st = (r, st')" by (cases "gather self ev st")
      show ?thesis
      proof (cases r)
        case None
        with last_batch [OF i False] g False show ?thesis by simp
      next
        case (Some x)
        with last_abort [OF i False] g False show ?thesis by simp
      qed
    qed
  next
    show "0 \<le> nat (total_requests self)" by simp
  qed
  moreover obtain r st where
    l: "run_loop self ev (map int [0..<nat (total_requests self)])
          \<lparr>files_of = fs, tasks = [], trace = []\<rparr> = (r, st)"
    by (cases "run_loop self ev (map int [0..<nat (total_requests self)])
          \<lparr>files_of = fs, tasks = [], trace = []\<rparr>")
  ultimately have q: "?Q' (r, st)" by simp
  show ?thesis
  proof (cases r)
    case (Some x)
    with q l show ?thesis by (simp add: run_def range_py_def)
  next
    case None
    show ?thesis
    proof (cases "tasks st = []")
      case True
      with q l None show ?thesis by (simp add: run_def range_py_def)
    next
      case False
      obtain r' st' where g: "gather self ev st = (r', st')" by (cases "gather self ev st")
      with q l None False show ?thesis
        by (cases r') (simp_all add: run_def range_py_def)
    qed
  qed
qed

lemma request_result_response:
  assumes "request_outcome (exchange_of ev request_id) = Inr resp" and "response_body resp = Inr v"
  shows "\<exists>r. request_result self ev request_id = Inr r
           \<and> map_of r ''request_id'' = Some (PInt request_id)
           \<and> map_of r ''status_code'' = Some (PInt (status_code resp))
           \<and> map_of r ''success'' = Some (PBool (200 \<le> status_code resp \<and> status_code resp < 300))
           \<and> map_of r ''error'' = None
           \<and> map_of r ''response_body'' = Some v"
  using assms
  by (auto simp: request_result_def response_body_def dict_update_def update_conv' Let_def
      split: sum.splits)

lemma request_result_undecodable:
  assumes "request_outcome (exchange_of ev request_id) = Inr resp" and "response_body resp = Inl msg"
  shows "\<exists>r. request_result self ev request_id = Inr r
           \<and> map_of r ''request_id'' = Some (PInt request_id)
           \<and> map_of r ''status_code'' = Some PNone
           \<and> map_of r ''success'' = Some (PBool False)
           \<and> map_of r ''error'' = Some (PStr msg)
           \<and> map_of r ''response_body'' = None"
  using assms
  by (auto simp: request_result_def response_body_def dict_update_def update_conv' Let_def
      split: sum.splits)

lemma request_result_exception:
  assumes "request_outcome (exchange_of ev request_id) = Inl (PyException msg)"
  shows "\<exists>r. request_result self ev request_id = Inr r
           \<and> map_of r ''request_id'' = Some (PInt request_id)
           \<and> map_of r ''status_code'' = Some PNone
           \<and> map_of r ''success'' = Some (PBool False)
           \<and> map_of r ''error'' = Some (PStr msg)"
  using assms by (simp add: request_result_def dict_update_def update_conv' Let_def)

lemma request_result_base_exception:
  assumes "request_outcome (exchange_of ev request_id) = Inl (PyBaseException msg)"
  shows "request_result self ev request_id = Inl (PyBaseException msg)"
  using assms by (simp add: request_result_def)

lemma make_request_Inr:
  assumes "make_request self ev fs request_id = (Inr r, fs')"
  shows "request_result self ev request_id = Inr r
       \<and> log_fault (exchange_of ev request_id) = None
       \<and> fs' = fs(log_file self \<mapsto> file_content fs (log_file self) @ json_dumps ev r @ [CHR 0x0A])"
  using assms
  by (auto simp: make_request_def log_result_def split: sum.splits option.splits)

lemma make_request_Inl:
  assumes "make_request self ev fs request_id = (Inl x, fs')"
  shows "fs' = fs \<and> (request_result self ev request_id = Inl x
       \<or> log_fault (exchange_of ev request_id) = Some x)"
  using assms
  by (auto simp: make_request_def log_result_def split: sum.splits option.splits)

lemma completed_completion_events:
  "first_raise ev js = None \<Longrightarrow>
     completed (completion_events self ev js) = map (\<lambda>j. (j, result_of self ev j)) js"
  by (simp add: completion_events_no_raise)

lemma raised_completion_events:
  "first_raise ev js = None \<Longrightarrow> raised (completion_events self ev js) = []"
  by (simp add: completion_events_no_raise)

lemma ids_inv_start: "ids_inv self ev 0 \<lparr>files_of = fs, tasks = [], trace = []\<rparr>"
  by (simp add: ids_inv_def)

lemma ids_inv_dispatch:
  "ids_inv self ev k st \<Longrightarrow>
   ids_inv self ev (Suc k) (st\<lparr>tasks := tasks st @ [int k + 1], trace := trace st @ [Dispatched (int k + 1)]\<rparr>)"
  by (simp add: ids_inv_def)

lemma ids_inv_gather:
  assumes "ids_inv self ev k st" and "gather self ev st = (None, st')"
  shows "ids_done self ev k st'"
proof -
  let ?js = "sort_key (latency ev) (tasks st)"
  from gather_eq [OF assms(2)] have
    r: "first_raise ev ?js = None" and
    t: "trace st' = trace st @ Gathered (tasks st) # completion_events self ev ?js"
    by simp_all
  from r have n: "\<forall>j\<in>set (tasks st). raises ev j = None"
    by (simp add: first_raise_None_iff)
  from assms(1) have c: "concat (gathered (trace st)) @ tasks st = dispatched (trace st)"
    by (simp add: ids_inv_def)
  from assms(1) have g: "\<forall>j\<in>set (concat (gathered (trace st))). raises ev j = None"
    by (simp add: ids_inv_def)
  have "set (dispatched (trace st)) = set (concat (gathered (trace st))) \<union> set (tasks st)"
    unfolding c [symmetric] by simp
  with g n have "\<forall>j\<in>set (dispatched (trace st)). raises ev j = None"
    by blast
  with assms(1) c show ?thesis
    by (simp add: ids_done_def ids_inv_def t completed_completion_events [OF r]
        raised_completion_events [OF r])
qed

lemma ids_inv_no_tasks:
  assumes "ids_inv self ev k st" and "tasks st = []"
  shows "ids_done self ev k st"
proof -
  from assms have c: "concat (gathered (trace st)) = dispatched (trace st)"
    by (simp add: ids_inv_def)
  from assms(1) have "\<forall>j\<in>set (concat (gathered (trace st))). raises ev j = None"
    by (simp add: ids_inv_def)
  then have "\<forall>j\<in>set (dispatched (trace st)). raises ev j = None"
    unfolding c .
  with assms(1) c show ?thesis
    by (simp add: ids_inv_def ids_done_def)
qed

lemma ids_done_reset: "ids_done self ev k st \<Longrightarrow> ids_inv self ev k (st\<lparr>tasks := []\<rparr>)"
  by (simp add: ids_done_def ids_inv_def)

lemma ids_inv_abort:
  assumes "ids_inv self ev k st" and "gather self ev st = (Some x, st')"
  shows "ids_aborted ev k x st'"
proof -
  let ?js = "sort_key (latency ev) (tasks st)"
  from gather_eq [OF assms(2)] have
    r: "first_raise ev ?js = Some x" and
    t: "trace st' = trace st @ Gathered (tasks st) # completion_events self ev ?js"
    by simp_all
  from completion_events_raise [OF r, of self] obtain js1 j js2 where
    js: "?js = js1 @ j # js2" and j: "raises ev j = Some x" and
    ce: "completion_events self ev ?js = map (\<lambda>j. Completed j (result_of self ev j)) js1
           @ Raised j x # finish_events self ev (take (stragglers ev j) js2)"
    by blast
  from assms(1) have c: "concat (gathered (trace st)) @ tasks st = dispatched (trace st)"
    and d: "dispatched (trace st) = map (\<lambda>i. int i + 1) [0..<k]" and b: "raised (trace st) = []"
    by (simp_all add: ids_inv_def)
  have "j \<in> set ?js" by (simp add: js)
  then have "j \<in> set (tasks st)" by simp
  then have jd: "j \<in> set (dispatched (trace st))" unfolding c [symmetric] by simp
  let ?tr' = "trace st @ Gathered (tasks st) # map (\<lambda>j. Completed j (result_of self ev j)) js1"
  let ?tr'' = "finish_events self ev (take (stragglers ev j) js2)"
  have dd: "dispatched (trace st') = dispatched (trace st)" by (simp add: t)
  have gg: "gathered (trace st') = gathered (trace st) @ [tasks st]" by (simp add: t)
  have "trace st' = ?tr' @ Raised j x # ?tr''" by (simp add: t ce)
  moreover have "raised ?tr' = []" by (simp add: b)
  moreover have "dispatched ?tr'' = []" "gathered ?tr'' = []" by simp_all
  ultimately have "\<exists>j tr' tr''. trace st' = tr' @ Raised j x # tr'' \<and> raises ev j = Some x
      \<and> raised tr' = [] \<and> dispatched tr'' = [] \<and> gathered tr'' = []
      \<and> j \<in> set (dispatched (trace st'))"
    using j jd unfolding dd
    by (intro exI [of _ j] exI [of _ ?tr'] exI [of _ ?tr'']) simp
  moreover have "concat (gathered (trace st')) = dispatched (trace st')"
    unfolding dd gg using c by simp
  ultimately show ?thesis
    unfolding ids_aborted_def using d dd by simp
qed

lemma run_ids:
  "case run self ev fs of
     (Inr v, st) \<Rightarrow> v = None \<and> ids_done self ev (nat (total_requests self)) st
   | (Inl x, st) \<Rightarrow> \<exists>k\<le>nat (total_requests self). ids_aborted ev k x st"
proof (rule run_rule [where I = "ids_inv self ev"])
  show "ids_inv self ev 0 \<lparr>files_of = fs, tasks = [], trace = []\<rparr>" by (rule ids_inv_start)
next
  fix k st
  assume "ids_inv self ev k st"
  then show "ids_inv self ev (Suc k)
      (st\<lparr>tasks := tasks st @ [int k + 1], trace := trace st @ [Dispatched (int k + 1)]\<rparr>)"
    by (rule ids_inv_dispatch)
next
  fix k st st'
  assume "ids_inv self ev k st"
    "gather self ev (st\<lparr>tasks := tasks st @ [int k + 1], trace := trace st @ [Dispatched (int k + 1)]\<rparr>)
       = (None, st')"
  then show "ids_inv self ev (Suc k) (st'\<lparr>tasks := []\<rparr>)"
    by (blast intro: ids_done_reset ids_inv_gather ids_inv_dispatch)
next
  fix k st st' x
  assume "k < nat (total_requests self)" "ids_inv self ev k st"
    "gather self ev (st\<lparr>tasks := tasks st @ [int k + 1], trace := trace st @ [Dispatched (int k + 1)]\<rparr>)
       = (Some x, st')"
  then have "ids_aborted ev (Suc k) x st'" "Suc k \<le> nat (total_requests self)"
    by (auto intro: ids_inv_abort ids_inv_dispatch)
  then show "case (Inl x, st') of
       (Inr v, st) \<Rightarrow> v = None \<and> ids_done self ev (nat (total_requests self)) st
     | (Inl x, st) \<Rightarrow> \<exists>k\<le>nat (total_requests self). ids_aborted ev k x st"
    by auto
next
  fix st
  assume "ids_inv self ev (nat (total_requests self)) st" "tasks st = []"
  then have "ids_done self ev (nat (total_requests self)) st"
    by (rule ids_inv_no_tasks)
  then show "case (Inr None, st) of
       (Inr v, st) \<Rightarrow> v = None \<and> ids_done self ev (nat (total_requests self)) st
     | (Inl x, st) \<Rightarrow> \<exists>k\<le>nat (total_requests self). ids_aborted ev k x st"
    by simp
next
  fix st st'
  assume "ids_inv self ev (nat (total_requests self)) st" "gather self ev st = (None, st')"
  then show "case (Inr None, st') of
       (Inr v, st) \<Rightarrow> v = None \<and> ids_done self ev (nat (total_requests self)) st
     | (Inl x, st) \<Rightarrow> \<exists>k\<le>nat (total_requests self). ids_aborted ev k x st"
    by (simp add: ids_inv_gather)
next
  fix st st' x
  assume "ids_inv self ev (nat (total_requests self)) st" "gather self ev st = (Some x, st')"
  then have "ids_aborted ev (nat (total_requests self)) x st'" by (rule ids_inv_abort)
  then show "case (Inl x, st') of
       (Inr v, st) \<Rightarrow> v = None \<and> ids_done self ev (nat (total_requests self)) st
     | (Inl x, st) \<Rightarrow> \<exists>k\<le>nat (total_requests self). ids_aborted ev k x st"
    by auto
qed

lemma in_flight_append: "in_flight (xs @ ys) = in_flight xs + in_flight ys"
  by (simp add: in_flight_def)

lemma in_flight_Nil [simp]: "in_flight [] = 0"
  by (simp add: in_flight_def)

lemma dispatched_take: "dispatched evs = [] \<Longrightarrow> dispatched (take q evs) = []"
proof -
  assume a: "dispatched evs = []"
  have "dispatched (take q evs @ drop q evs) = []" using a by simp
  then show ?thesis unfolding dispatched_append by simp
qed

lemma in_flight_no_dispatch: "dispatched evs = [] \<Longrightarrow> in_flight evs \<le> 0"
  by (simp add: in_flight_def)

lemma Dispatched_in_dispatched: "Dispatched j \<in> set evs \<Longrightarrow> j \<in> set (dispatched evs)"
  by (induction evs rule: dispatched.induct) auto

lemma bounded_in_flight_append:
  assumes "bounded_in_flight c tr" and "dispatched evs = []"
  shows "bounded_in_flight c (tr @ evs)"
  unfolding bounded_in_flight_def
proof (intro allI impI)
  fix p
  assume "p \<le> length (tr @ evs)"
  have "in_flight (take p (tr @ evs)) = in_flight (take p tr) + in_flight (take (p - length tr) evs)"
    by (simp add: in_flight_append)
  moreover have "in_flight (take (p - length tr) evs) \<le> 0"
    using assms(2) by (intro in_flight_no_dispatch dispatched_take)
  moreover have "in_flight (take (min p (length tr)) tr) \<le> c"
    using assms(1) by (simp add: bounded_in_flight_def)
  then have "in_flight (take p tr) \<le> c"
    by (cases "p \<le> length tr") (simp_all add: min_def)
  ultimately show "in_flight (take p (tr @ evs)) \<le> c" by simp
qed

lemma bounded_in_flight_snoc:
  assumes "bounded_in_flight c tr" and "in_flight (tr @ [e]) \<le> c"
  shows "bounded_in_flight c (tr @ [e])"
  unfolding bounded_in_flight_def
proof (intro allI impI)
  fix p
  assume p: "p \<le> length (tr @ [e])"
  show "in_flight (take p (tr @ [e])) \<le> c"
  proof (cases "p \<le> length tr")
    case True
    with assms(1) show ?thesis by (simp add: bounded_in_flight_def)
  next
    case False
    with p have "p = Suc (length tr)" by simp
    with assms(2) show ?thesis by simp
  qed
qed

lemma batch_aligned_append:
  assumes "batch_aligned c tr" and "dispatched evs = []"
  shows "batch_aligned c (tr @ evs)"
  unfolding batch_aligned_def
proof (intro allI impI)
  fix p j
  assume p: "p < length (tr @ evs)" and e: "(tr @ evs) ! p = Dispatched j"
  show "in_flight (take p (tr @ evs)) = (j - 1) mod c"
  proof (cases "p < length tr")
    case True
    with assms(1) e show ?thesis by (simp add: batch_aligned_def nth_append)
  next
    case False
    with p e have "evs ! (p - length tr) = Dispatched j" "p - length tr < length evs"
      by (simp_all add: nth_append)
    then have "Dispatched j \<in> set evs" by (metis nth_mem)
    then have "j \<in> set (dispatched evs)" by (rule Dispatched_in_dispatched)
    with assms(2) show ?thesis by simp
  qed
qed

lemma batch_aligned_snoc:
  assumes "batch_aligned c tr" and "in_flight tr = (j - 1) mod c"
  shows "batch_aligned c (tr @ [Dispatched j])"
  unfolding batch_aligned_def
proof (intro allI impI)
  fix p i
  assume p: "p < length (tr @ [Dispatched j])" and e: "(tr @ [Dispatched j]) ! p = Dispatched i"
  show "in_flight (take p (tr @ [Dispatched j])) = (i - 1) mod c"
  proof (cases "p < length tr")
    case True
    with assms(1) e show ?thesis by (simp add: batch_aligned_def nth_append)
  next
    case False
    with p have "p = length tr" by simp
    with e assms(2) show ?thesis by simp
  qed
qed

lemma dispatched_map_Completed [simp]: "dispatched (map (\<lambda>j. Completed j (f j)) js) = []"
  by (induction js) simp_all

lemma in_flight_completion_events:
  "first_raise ev js = None \<Longrightarrow> in_flight (completion_events self ev js) = - int (length js)"
  by (simp add: completion_events_no_raise in_flight_def)

lemma batch_size_pos: "0 < batch_size self"
  by (simp add: batch_size_def)

lemma flight_inv_start: "flight_inv self 0 \<lparr>files_of = fs, tasks = [], trace = []\<rparr>"
  using batch_size_pos [of self] by (simp add: flight_inv_def bounded_in_flight_def batch_aligned_def)

lemma flight_inv_lt:
  assumes "flight_inv self k st"
  shows "int (length (tasks st)) < batch_size self"
proof -
  from assms have "int (length (tasks st)) = int k mod batch_size self"
    by (simp add: flight_inv_def)
  then show ?thesis using batch_size_pos [of self] by simp
qed

lemma flight_inv_dispatch:
  assumes "flight_inv self k st"
  shows "flight_mid self
           (st\<lparr>tasks := tasks st @ [int k + 1], trace := trace st @ [Dispatched (int k + 1)]\<rparr>)"
proof -
  from assms have f: "in_flight (trace st) = int (length (tasks st))"
    and m: "int (length (tasks st)) = int k mod batch_size self"
    and b: "bounded_in_flight (batch_size self) (trace st)"
    and a: "batch_aligned (batch_size self) (trace st)"
    and g: "\<forall>b\<in>set (gathered (trace st)). int (length b) = batch_size self"
    by (simp_all add: flight_inv_def)
  from flight_inv_lt [OF assms] have lt: "int (length (tasks st)) < batch_size self" .
  have f': "in_flight (trace st @ [Dispatched (int k + 1)]) = int (length (tasks st)) + 1"
    using f by (simp add: in_flight_def)
  have "bounded_in_flight (batch_size self) (trace st @ [Dispatched (int k + 1)])"
    using b f' lt by (intro bounded_in_flight_snoc) simp_all
  moreover have "batch_aligned (batch_size self) (trace st @ [Dispatched (int k + 1)])"
    using a f m by (intro batch_aligned_snoc) simp_all
  ultimately show ?thesis
    using f' lt g by (simp add: flight_mid_def)
qed

lemma flight_mid_gather:
  assumes "flight_mid self st" and "gather self ev st = (r, st')"
  shows "bounded_in_flight (batch_size self) (trace st')"
    and "batch_aligned (batch_size self) (trace st')"
    and "gathered (trace st') = gathered (trace st) @ [tasks st]"
    and "r = None \<Longrightarrow> in_flight (trace st') = 0"
proof -
  let ?js = "sort_key (latency ev) (tasks st)"
  let ?evs = "Gathered (tasks st) # completion_events self ev ?js"
  from gather_eq [OF assms(2)] have
    r: "r = first_raise ev ?js" and t: "trace st' = trace st @ ?evs"
    by simp_all
  have d: "dispatched ?evs = []" by simp
  from assms(1) have f: "in_flight (trace st) = int (length (tasks st))"
    and b: "bounded_in_flight (batch_size self) (trace st)"
    and a: "batch_aligned (batch_size self) (trace st)"
    by (simp_all add: flight_mid_def)
  show "bounded_in_flight (batch_size self) (trace st')"
    unfolding t using b d by (rule bounded_in_flight_append)
  show "batch_aligned (batch_size self) (trace st')"
    unfolding t using a d by (rule batch_aligned_append)
  show "gathered (trace st') = gathered (trace st) @ [tasks st]"
    by (simp add: t)
  show "in_flight (trace st') = 0" if "r = None"
  proof -
    from that r have "first_raise ev ?js = None" by simp
    from in_flight_completion_events [OF this, of self]
    have "in_flight ?evs = - int (length (tasks st))"
      by (simp add: in_flight_def)
    with f show ?thesis unfolding t by (simp add: in_flight_append del: in_flight_def)
  qed
qed

lemma flight_inv_keep:
  assumes "flight_inv self k st" and "int (length (tasks st)) + 1 < concurrent_requests self"
  shows "flight_inv self (Suc k)
           (st\<lparr>tasks := tasks st @ [int k + 1], trace := trace st @ [Dispatched (int k + 1)]\<rparr>)"
proof -
  let ?m = "batch_size self"
  from assms(2) have lt: "int (length (tasks st)) + 1 < ?m" by (simp add: batch_size_def)
  from assms(1) have m: "int (length (tasks st)) = int k mod ?m" by (simp add: flight_inv_def)
  have "(int k + 1) mod ?m = (int k mod ?m + 1) mod ?m" by (simp add: mod_add_left_eq)
  also have "\<dots> = int (length (tasks st)) + 1" using lt m by simp
  finally have "int (length (tasks st)) + 1 = int (Suc k) mod ?m" by (simp add: add.commute)
  with flight_inv_dispatch [OF assms(1)] show ?thesis
    by (simp add: flight_mid_def flight_inv_def)
qed

lemma flight_inv_full:
  assumes "flight_inv self k st" and "concurrent_requests self \<le> int (length (tasks st)) + 1"
  shows "int (length (tasks st)) + 1 = batch_size self" and "int (Suc k) mod batch_size self = 0"
proof -
  let ?m = "batch_size self"
  from flight_inv_lt [OF assms(1)] assms(2) show e: "int (length (tasks st)) + 1 = ?m"
    by (simp add: batch_size_def max_def split: if_splits)
  from assms(1) have m: "int (length (tasks st)) = int k mod ?m" by (simp add: flight_inv_def)
  have "(int k + 1) mod ?m = (int k mod ?m + 1) mod ?m" by (simp add: mod_add_left_eq)
  also have "\<dots> = 0" using e m by simp
  finally show "int (Suc k) mod ?m = 0" by (simp add: add.commute)
qed

lemma flight_inv_batch:
  assumes "flight_inv self k st" and "concurrent_requests self \<le> int (length (tasks st)) + 1"
    and "gather self ev (st\<lparr>tasks := tasks st @ [int k + 1], trace := trace st @ [Dispatched (int k + 1)]\<rparr>)
           = (None, st')"
  shows "flight_inv self (Suc k) (st'\<lparr>tasks := []\<rparr>)"
proof -
  let ?st1 = "st\<lparr>tasks := tasks st @ [int k + 1], trace := trace st @ [Dispatched (int k + 1)]\<rparr>"
  have mid: "flight_mid self ?st1" using assms(1) by (rule flight_inv_dispatch)
  note g = flight_mid_gather [OF mid assms(3)]
  from mid have "\<forall>b\<in>set (gathered (trace ?st1)). int (length b) = batch_size self"
    by (simp add: flight_mid_def)
  with flight_inv_full [OF assms(1,2)] g show ?thesis
    by (simp add: flight_inv_def)
qed

lemma flight_mid_post:
  assumes "flight_mid self st" and "gather self ev st = (r, st')"
  shows "flight_post self (trace st')"
proof -
  note g = flight_mid_gather [OF assms]
  from assms(1) have "\<forall>b\<in>set (gathered (trace st)). int (length b) = batch_size self"
    "tasks st \<noteq> []" "int (length (tasks st)) \<le> batch_size self"
    by (simp_all add: flight_mid_def)
  with g(1,2) batch_size_pos [of self] show ?thesis
    unfolding flight_post_def g(3) by auto
qed

lemma flight_inv_mid:
  assumes "flight_inv self k st" and "tasks st \<noteq> []"
  shows "flight_mid self st"
  using assms flight_inv_lt [OF assms(1)] by (simp add: flight_inv_def flight_mid_def)

lemma flight_inv_post:
  assumes "flight_inv self k st"
  shows "flight_post self (trace st)"
  using assms batch_size_pos [of self]
  by (auto simp: flight_inv_def flight_post_def dest: in_set_butlastD)

lemma run_flight: "flight_post self (trace (snd (run self ev fs)))"
proof (rule run_rule [where I = "flight_inv self" and Q = "\<lambda>p. flight_post self (trace (snd p))"])
  show "flight_inv self 0 \<lparr>files_of = fs, tasks = [], trace = []\<rparr>" by (rule flight_inv_start)
next
  fix k st
  assume "flight_inv self k st" "int (length (tasks st)) + 1 < concurrent_requests self"
  then show "flight_inv self (Suc k)
      (st\<lparr>tasks := tasks st @ [int k + 1], trace := trace st @ [Dispatched (int k + 1)]\<rparr>)"
    by (rule flight_inv_keep)
next
  fix k st st'
  assume "flight_inv self k st" "concurrent_requests self \<le> int (length (tasks st)) + 1"
    "gather self ev (st\<lparr>tasks := tasks st @ [int k + 1], trace := trace st @ [Dispatched (int k + 1)]\<rparr>)
       = (None, st')"
  then show "flight_inv self (Suc k) (st'\<lparr>tasks := []\<rparr>)" by (rule flight_inv_batch)
next
  fix k st st' x
  assume "flight_inv self k st"
    "gather self ev (st\<lparr>tasks := tasks st @ [int k + 1], trace := trace st @ [Dispatched (int k + 1)]\<rparr>)
       = (Some x, st')"
  then show "flight_post self (trace (snd (Inl x, st')))"
    by (simp add: flight_mid_post [OF flight_inv_dispatch])
next
  fix st
  assume "flight_inv self (nat (total_requests self)) st"
  then show "flight_post self (trace (snd (Inr None, st)))" by (simp add: flight_inv_post)
next
  fix st st'
  assume "flight_inv self (nat (total_requests self)) st" "tasks st \<noteq> []" "gather self ev st = (None, st')"
  then show "flight_post self (trace (snd (Inr None, st')))"
    by (simp add: flight_mid_post [OF flight_inv_mid])
next
  fix st st' x
  assume "flight_inv self (nat (total_requests self)) st" "tasks st \<noteq> []" "gather self ev st = (Some x, st')"
  then show "flight_post self (trace (snd (Inl x, st')))"
    by (simp add: flight_mid_post [OF flight_inv_mid])
qed


lemma upto_request_ids: "map (\<lambda>i. int i + 1) [0..<k] = [1..int k]"
proof (induction k)
  case 0
  then show ?case by simp
next
  case (Suc k)
  have "[1..int (Suc k)] = [1..int k] @ [int k + 1]"
    using upto_rec2 [of 1 "int k + 1"] by (simp add: add.commute)
  with Suc show ?case by simp
qed

lemma request_ids_upto: "request_ids n = [1..n]"
proof (cases "0 \<le> n")
  case True
  then show ?thesis
    using upto_request_ids [of "nat n"] by (simp add: request_ids_def range_py_def comp_def)
next
  case False
  then show ?thesis by (simp add: request_ids_def range_py_def)
qed

lemma ids_prefix:
  assumes "k \<le> nat n"
  shows "prefix (map (\<lambda>i. int i + 1) [0..<k]) [1..n]"
proof -
  have "[0..<nat n] = [0..<k] @ [k..<nat n]"
    using assms by (metis le_add_diff_inverse upt_add_eq_append zero_le)
  then have "map (\<lambda>i. int i + 1) [0..<nat n]
      = map (\<lambda>i. int i + 1) [0..<k] @ map (\<lambda>i. int i + 1) [k..<nat n]"
    by simp
  moreover have "map (\<lambda>i. int i + 1) [0..<nat n] = [1..n]"
    using request_ids_upto [of n] by (simp add: request_ids_def range_py_def comp_def)
  ultimately show ?thesis by (metis prefixI)
qed

lemma files_inv_gather:
  assumes "files_inv self ev fs st" and "gather self ev st = (r, st')"
  shows "files_inv self ev fs st'"
  using assms gather_eq [OF assms(2)]
  by (simp add: files_inv_def log_lines_def)

lemma files_inv_dispatch:
  assumes "files_inv self ev fs st"
  shows "files_inv self ev fs (st\<lparr>tasks := ts, trace := trace st @ [Dispatched i]\<rparr>)"
  using assms by (simp add: files_inv_def log_lines_def)

lemma files_inv_reset: "files_inv self ev fs st \<Longrightarrow> files_inv self ev fs (st\<lparr>tasks := []\<rparr>)"
  by (simp add: files_inv_def)

lemma run_files: "files_inv self ev fs (snd (run self ev fs))"
proof (rule run_rule [where I = "\<lambda>k. files_inv self ev fs" and Q = "\<lambda>p. files_inv self ev fs (snd p)"])
  show "files_inv self ev fs \<lparr>files_of = fs, tasks = [], trace = []\<rparr>"
    by (simp add: files_inv_def log_lines_def)
next
  fix k st
  assume "files_inv self ev fs st"
  then show "files_inv self ev fs
      (st\<lparr>tasks := tasks st @ [int k + 1], trace := trace st @ [Dispatched (int k + 1)]\<rparr>)"
    by (rule files_inv_dispatch)
next
  fix k st st'
  assume "files_inv self ev fs st"
    "gather self ev (st\<lparr>tasks := tasks st @ [int k + 1], trace := trace st @ [Dispatched (int k + 1)]\<rparr>)
       = (None, st')"
  then show "files_inv self ev fs (st'\<lparr>tasks := []\<rparr>)"
    by (blast intro: files_inv_reset files_inv_gather files_inv_dispatch)
next
  fix k st st' x
  assume "files_inv self ev fs st"
    "gather self ev (st\<lparr>tasks := tasks st @ [int k + 1], trace := trace st @ [Dispatched (int k + 1)]\<rparr>)
       = (Some x, st')"
  then show "files_inv self ev fs (snd (Inl x, st'))"
    by (auto intro: files_inv_gather files_inv_dispatch)
next
  fix st
  assume "files_inv self ev fs st"
  then show "files_inv self ev fs (snd (Inr None, st))" by simp
next
  fix st st'
  assume "files_inv self ev fs st" "gather self ev st = (None, st')"
  then show "files_inv self ev fs (snd (Inr None, st'))"
    by (auto intro: files_inv_gather)
next
  fix st st' x
  assume "files_inv self ev fs st" "gather self ev st = (Some x, st')"
  then show "files_inv self ev fs (snd (Inl x, st'))"
    by (auto intro: files_inv_gather)
qed

lemma run_cases:
  obtains st where "run self ev fs = (Inr None, st)" "ids_done self ev (nat (total_requests self)) st"
  | x st k where "run self ev fs = (Inl x, st)" "k \<le> nat (total_requests self)" "ids_aborted ev k x st"
proof -
  obtain r st where r: "run self ev fs = (r, st)" by (cases "run self ev fs")
  show ?thesis
  proof (cases r)
    case (Inl x)
    with run_ids [of self ev fs] r that(2) show ?thesis by auto
  next
    case (Inr v)
    with run_ids [of self ev fs] r that(1) show ?thesis by auto
  qed
qed

lemma run_no_raise:
  assumes "\<forall>j\<in>{1..total_requests self}. raises ev j = None"
  obtains st where "run self ev fs = (Inr None, st)" "ids_done self ev (nat (total_requests self)) st"
proof (rule run_cases [of self ev fs])
  fix st
  assume "run self ev fs = (Inr None, st)" "ids_done self ev (nat (total_requests self)) st"
  then show thesis by (rule that)
next
  fix x st k
  assume a: "run self ev fs = (Inl x, st)" "k \<le> nat (total_requests self)" "ids_aborted ev k x st"
  from a(3) obtain j where j: "raises ev j = Some x" "j \<in> set (dispatched (trace st))"
    and d: "dispatched (trace st) = map (\<lambda>i. int i + 1) [0..<k]"
    by (auto simp: ids_aborted_def)
  from ids_prefix [OF a(2)] have "set (map (\<lambda>i. int i + 1) [0..<k]) \<subseteq> set [1..total_requests self]"
    by (rule set_mono_prefix)
  with j d have "j \<in> {1..total_requests self}" by auto
  with assms j show thesis by simp
qed

lemma demo_run:
  "run demo_tester demo_env Map.empty =
     (Inr None,
      \<lparr>files_of = [''log.jsonl'' \<mapsto> ''{2}\<newline>{1}\<newline>{3}\<newline>''],
        tasks = [3],
        trace = [Dispatched 1, Dispatched 2, Gathered [1, 2],
                 Completed 2 (result_of demo_tester demo_env 2),
                 Completed 1 (result_of demo_tester demo_env 1),
                 Dispatched 3, Gathered [3],
                 Completed 3 (result_of demo_tester demo_env 3)]\<rparr>)"
  by (simp add: run_def range_py_def gather_def make_request_eq raises_def demo_tester_def init_def
      demo_env_def demo_exchange_def demo_response_def upt_rec Let_def file_content_def demo_dumps_def result_of_def
      request_result_def dict_update_def)

lemma ids_upto: "map (\<lambda>i. int i + 1) [0..<nat n] = [1..n]"
  using request_ids_upto [of n] by (simp add: request_ids_def range_py_def comp_def)

lemma log_fault_raises: "log_fault (exchange_of ev j) \<noteq> None \<Longrightarrow> raises ev j \<noteq> None"
  by (cases "exchange_of ev j" rule: outcome_cases) (auto simp: raises_def)

lemma raises_None:
  assumes "raises ev j = None"
  shows "log_fault (exchange_of ev j) = None"
    and "request_outcome (exchange_of ev j) \<noteq> Inl (PyBaseException msg)"
  using assms by (cases "exchange_of ev j" rule: outcome_cases; auto simp: raises_def)+

lemma result_of_request_id:
  assumes "raises ev j = None"
  shows "map_of (result_of self ev j) ''request_id'' = Some (PInt j)"
proof (cases "exchange_of ev j" rule: body_cases)
  case (stored resp v)
  from request_result_response [OF stored, of self] show ?thesis by (auto simp: result_of_def)
next
  case (undecodable resp msg)
  from request_result_undecodable [OF undecodable, of self] show ?thesis by (auto simp: result_of_def)
next
  case (failed msg)
  from request_result_exception [OF failed, of self] show ?thesis by (auto simp: result_of_def)
next
  case (uncaught msg)
  with raises_None(2) [OF assms, of msg] show ?thesis by simp
qed

lemma mset_concat_sort_key: "mset (concat (map (sort_key f) bs)) = mset (concat bs)"
  by (induction bs) simp_all

lemma run_complete:
  assumes "\<forall>j\<in>{1..total_requests self}. raises ev j = None"
  shows "fst (run self ev fs) = Inr None"
    and "dispatched (run_trace self ev fs) = [1..total_requests self]"
    and "concat (gathered (run_trace self ev fs)) = [1..total_requests self]"
    and "completed (run_trace self ev fs)
           = map (\<lambda>j. (j, result_of self ev j))
               (concat (map (sort_key (latency ev)) (gathered (run_trace self ev fs))))"
    and "mset (map fst (completed (run_trace self ev fs))) = mset [1..total_requests self]"
proof -
  from run_no_raise [OF assms, of fs] obtain st where
    r: "run self ev fs = (Inr None, st)" and d: "ids_done self ev (nat (total_requests self)) st"
    by blast
  from r have t: "run_trace self ev fs = trace st" by (simp add: run_trace_def)
  from r show "fst (run self ev fs) = Inr None" by simp
  from d show d1: "dispatched (run_trace self ev fs) = [1..total_requests self]"
    by (simp add: t ids_done_def ids_upto)
  from d d1 show g: "concat (gathered (run_trace self ev fs)) = [1..total_requests self]"
    by (simp add: t ids_done_def)
  from d show c: "completed (run_trace self ev fs)
           = map (\<lambda>j. (j, result_of self ev j))
               (concat (map (sort_key (latency ev)) (gathered (run_trace self ev fs))))"
    by (simp add: t ids_done_def)
  have "map fst (completed (run_trace self ev fs))
          = concat (map (sort_key (latency ev)) (gathered (run_trace self ev fs)))"
    unfolding c by (simp add: comp_def)
  then show "mset (map fst (completed (run_trace self ev fs))) = mset [1..total_requests self]"
    by (simp add: mset_concat_sort_key g)
qed

lemma run_dispatched_prefix:
  "prefix (dispatched (run_trace self ev fs)) [1..total_requests self]
   \<and> concat (gathered (run_trace self ev fs)) = dispatched (run_trace self ev fs)"
proof (rule run_cases [of self ev fs])
  fix st
  assume "run self ev fs = (Inr None, st)" "ids_done self ev (nat (total_requests self)) st"
  then show ?thesis by (simp add: run_trace_def ids_done_def ids_upto)
next
  fix x st k
  assume "run self ev fs = (Inl x, st)" "k \<le> nat (total_requests self)" "ids_aborted ev k x st"
  then show ?thesis by (simp add: run_trace_def ids_aborted_def ids_prefix)
qed

lemma run_raises:
  assumes "j \<in> {1..total_requests self}" and "raises ev j \<noteq> None"
  shows "\<exists>y i tr' tr''. fst (run self ev fs) = Inl y
           \<and> run_trace self ev fs = tr' @ Raised i y # tr''
           \<and> raised tr' = [] \<and> dispatched tr'' = [] \<and> gathered tr'' = [] \<and> raises ev i = Some y"
proof (rule run_cases [of self ev fs])
  fix st
  assume "run self ev fs = (Inr None, st)" and d: "ids_done self ev (nat (total_requests self)) st"
  from d have "dispatched (trace st) = [1..total_requests self]"
    and "\<forall>j\<in>set (dispatched (trace st)). raises ev j = None"
    by (simp_all add: ids_done_def ids_upto)
  with assms show ?thesis by simp
next
  fix x st k
  assume "run self ev fs = (Inl x, st)" "ids_aborted ev k x st"
  then show ?thesis unfolding run_trace_def ids_aborted_def by auto
qed

lemma file_content_upd [simp]: "file_content (fs(p \<mapsto> s)) p = s"
  by (simp add: file_content_def)

lemma demo_run_any:
  "run demo_tester demo_env fs =
     (Inr None,
      \<lparr>files_of = fs(''log.jsonl'' \<mapsto> file_content fs ''log.jsonl'' @ ''{2}\<newline>{1}\<newline>{3}\<newline>''),
        tasks = [3],
        trace = [Dispatched 1, Dispatched 2, Gathered [1, 2],
                 Completed 2 (result_of demo_tester demo_env 2),
                 Completed 1 (result_of demo_tester demo_env 1),
                 Dispatched 3, Gathered [3],
                 Completed 3 (result_of demo_tester demo_env 3)]\<rparr>)"
  by (simp add: run_def range_py_def gather_def make_request_eq raises_def demo_tester_def init_def
      demo_env_def demo_exchange_def demo_response_def upt_rec Let_def demo_dumps_def result_of_def
      request_result_def dict_update_def)

lemma demo_log_lines:
  "log_lines demo_env
     [Dispatched 1, Dispatched 2, Gathered [1, 2],
      Completed 2 (result_of demo_tester demo_env 2),
      Completed 1 (result_of demo_tester demo_env 1),
      Dispatched 3, Gathered [3],
      Completed 3 (result_of demo_tester demo_env 3)] = ''{2}\<newline>{1}\<newline>{3}\<newline>''"
  by (simp add: log_lines_def demo_env_def demo_dumps_def result_of_def request_result_def
      dict_update_def demo_exchange_def demo_response_def)

lemma zero_run:
  "run zero_tester demo_env Map.empty =
     (Inr None,
      \<lparr>files_of = [''log.jsonl'' \<mapsto> ''{1}\<newline>{2}\<newline>{3}\<newline>''],
        tasks = [],
        trace = [Dispatched 1, Gathered [1], Completed 1 (result_of zero_tester demo_env 1),
                 Dispatched 2, Gathered [2], Completed 2 (result_of zero_tester demo_env 2),
                 Dispatched 3, Gathered [3], Completed 3 (result_of zero_tester demo_env 3)]\<rparr>)"
  by (simp add: run_def range_py_def gather_def make_request_eq raises_def zero_tester_def init_def
      demo_env_def demo_exchange_def demo_response_def upt_rec Let_def file_content_def demo_dumps_def result_of_def
      request_result_def dict_update_def)

lemma run_flight_facts:
  shows "bounded_in_flight (batch_size self) (run_trace self ev fs)"
    and "batch_aligned (batch_size self) (run_trace self ev fs)"
    and "\<forall>b\<in>set (gathered (run_trace self ev fs)). b \<noteq> [] \<and> int (length b) \<le> batch_size self"
    and "\<forall>b\<in>set (butlast (gathered (run_trace self ev fs))). int (length b) = batch_size self"
  using run_flight [of self ev fs] by (simp_all add: flight_post_def run_trace_def)


lemma success_iff_status_2xx:
  assumes "make_request self ev fs request_id = (Inr r, fs')"
  shows "(\<exists>b. map_of r ''success'' = Some (PBool b))
       \<and> (map_of r ''success'' = Some (PBool True)
            \<longleftrightarrow> (\<exists>sc. map_of r ''status_code'' = Some (PInt sc) \<and> 200 \<le> sc \<and> sc < 300))
       \<and> (\<forall>resp v. request_outcome (exchange_of ev request_id) = Inr resp
              \<and> response_body resp = Inr v
              \<and> \<not> (200 \<le> status_code resp \<and> status_code resp < 300) \<longrightarrow>
              map_of r ''success'' = Some (PBool False)
            \<and> map_of r ''status_code'' = Some (PInt (status_code resp))
            \<and> map_of r ''error'' = None)"
proof -
  let ?e = "exchange_of ev request_id"
  from assms have r: "request_result self ev request_id = Inr r"
    by (simp add: make_request_Inr)
  show ?thesis
  proof (cases ?e rule: body_cases)
    case (stored resp v)
    from request_result_response [OF stored, of self] r show ?thesis
      by (auto simp: stored)
  next
    case (undecodable resp msg)
    from request_result_undecodable [OF undecodable, of self] r show ?thesis
      by (auto simp: undecodable)
  next
    case (failed msg)
    from request_result_exception [OF failed, of self] r show ?thesis
      by (auto simp: failed)
  next
    case (uncaught msg)
    from request_result_base_exception [OF uncaught, of self] r show ?thesis
      by simp
  qed
qed

lemma response_body_stored:
  assumes "request_outcome (exchange_of ev request_id) = Inr resp"
    and "json resp = Inr v \<or> (\<exists>s. text' resp = Inr s)"
  shows "\<exists>r. request_result self ev request_id = Inr r
            \<and> map_of r ''response_body''
                = Some (case json resp of Inr v \<Rightarrow> v
                        | Inl x \<Rightarrow> (case text' resp of Inr s \<Rightarrow> PStr s | Inl msg \<Rightarrow> PNone))
            \<and> (log_fault (exchange_of ev request_id) = None \<longrightarrow>
                 fst (make_request self ev fs request_id) = Inr r)"
proof -
  from assms(2) obtain w where w: "response_body resp = Inr w"
    and c: "w = (case json resp of Inr v \<Rightarrow> v
                 | Inl x \<Rightarrow> (case text' resp of Inr s \<Rightarrow> PStr s | Inl msg \<Rightarrow> PNone))"
    by (auto simp: response_body_def split: sum.splits)
  from request_result_response [OF assms(1) w, of self] obtain r where
    r: "request_result self ev request_id = Inr r" "map_of r ''response_body'' = Some w"
    by blast
  have "log_fault (exchange_of ev request_id) = None \<longrightarrow> fst (make_request self ev fs request_id) = Inr r"
    using r(1) by (simp add: make_request_def log_result_def)
  with r c show ?thesis by (intro exI [of _ r]) simp
qed


lemma straggler_run:
  "run demo_tester straggler_env Map.empty =
     (Inl (PyException ''Permission denied''),
      \<lparr>files_of = [''log.jsonl'' \<mapsto> ''{1}\<newline>''],
        tasks = [1, 2],
        trace = [Dispatched 1, Dispatched 2, Gathered [1, 2],
                 Raised 2 (PyException ''Permission denied''),
                 Completed 1 (result_of demo_tester straggler_env 1)]\<rparr>)"
  by (simp add: run_def range_py_def gather_def make_request_eq raises_def demo_tester_def init_def
      straggler_env_def faulty_env_def demo_env_def demo_exchange_def demo_response_def upt_rec
      Let_def file_content_def demo_dumps_def result_of_def request_result_def dict_update_def)


section \<open>The result of one request\<close>

text \<open>
  C5. Every result that \<open>make_request\<close> returns has either a status code or an error,
  never both and never neither: on a completed exchange the status code is an integer and
  there is no \<open>error\<close> key; when the request raises an \<open>Exception\<close>, its message is
  stored under \<open>error\<close> and the status code is \<open>None\<close>, that is absent.
\<close>

theorem result_status_xor_error:
  assumes "make_request self ev fs request_id = (Inr r, fs')"
  shows "(present r ''status_code'' \<noteq> present r ''error'')
       \<and> (\<forall>msg. request_outcome (exchange_of ev request_id) = Inl (PyException msg) \<longrightarrow>
             map_of r ''error'' = Some (PStr msg) \<and> map_of r ''status_code'' = Some PNone
           \<and> \<not> present r ''status_code'')"
proof -
  let ?e = "exchange_of ev request_id"
  from assms have r: "request_result self ev request_id = Inr r"
    by (simp add: make_request_Inr)
  show ?thesis
  proof (cases ?e rule: body_cases)
    case (stored resp v)
    from request_result_response [OF stored, of self] r show ?thesis
      by (auto simp: present_def stored)
  next
    case (undecodable resp msg)
    from request_result_undecodable [OF undecodable, of self] r show ?thesis
      by (auto simp: present_def undecodable)
  next
    case (failed msg)
    from request_result_exception [OF failed, of self] r show ?thesis
      by (auto simp: present_def failed)
  next
    case (uncaught msg)
    from request_result_base_exception [OF uncaught, of self] r show ?thesis
      by simp
  qed
qed

theorem result_status_xor_error_witness:
  "fst (make_request demo_tester demo_env Map.empty 2) = Inr (result_of demo_tester demo_env 2)
   \<and> \<not> present (result_of demo_tester demo_env 2) ''status_code''
   \<and> present (result_of demo_tester demo_env 2) ''error''
   \<and> map_of (result_of demo_tester demo_env 2) ''error'' = Some (PStr ''timed out'')"
proof -
  have r: "fst (make_request demo_tester demo_env Map.empty 2) = Inr (result_of demo_tester demo_env 2)"
    by (simp add: make_request_eq raises_def demo_env_def demo_exchange_def)
  then have m: "make_request demo_tester demo_env Map.empty 2
             = (Inr (result_of demo_tester demo_env 2), snd (make_request demo_tester demo_env Map.empty 2))"
    by (simp add: prod_eq_iff)
  have o: "request_outcome (exchange_of demo_env 2) = Inl (PyException ''timed out'')"
    by (simp add: demo_env_def demo_exchange_def)
  from result_status_xor_error [OF m] o have
    "(present (result_of demo_tester demo_env 2) ''status_code''
        \<noteq> present (result_of demo_tester demo_env 2) ''error'')
     \<and> map_of (result_of demo_tester demo_env 2) ''error'' = Some (PStr ''timed out'')
     \<and> \<not> present (result_of demo_tester demo_env 2) ''status_code''"
    by blast
  with r show ?thesis by blast
qed

text \<open>
  C6 is right and the code breaks it in one case. In every result \<open>success\<close> is true
  exactly when the status code is an integer in [200, 300) (\<open>success_iff_status_2xx\<close>
  above), and a completed exchange with another status keeps its status and has no
  \<open>error\<close> key when its body is stored. But when the body is not JSON and
  \<open>response.text\<close> raises, the exception raised in the handler of the bare
  \<open>except:\<close> reaches \<open>except Exception\<close>: here the completed exchange of request 3,
  with status 500, is recorded as a failed request, with \<open>status_code\<close> \<open>None\<close> and an
  \<open>error\<close>.
\<close>

theorem non_2xx_recorded_as_failure:
  "request_outcome (exchange_of undecodable_env 3)
     = Inr ((demo_response 3)\<lparr>text' := Inl ''UTF-16 stream does not start with BOM''\<rparr>)
   \<and> status_code (demo_response 3) = 500
   \<and> fst (make_request demo_tester undecodable_env Map.empty 3)
       = Inr (result_of demo_tester undecodable_env 3)
   \<and> map_of (result_of demo_tester undecodable_env 3) ''success'' = Some (PBool False)
   \<and> map_of (result_of demo_tester undecodable_env 3) ''status_code'' = Some PNone
   \<and> map_of (result_of demo_tester undecodable_env 3) ''error''
       = Some (PStr ''UTF-16 stream does not start with BOM'')"
  by (simp add: make_request_eq raises_def result_of_def request_result_def dict_update_def
      update_conv' undecodable_env_def demo_env_def demo_exchange_def demo_response_def)

text \<open>
  C9 is right and the code breaks it in one case. The bare \<open>except:\<close> catches whatever
  \<open>response.json()\<close> raises, and the text is stored when \<open>response.text\<close> gives it
  (\<open>response_body_stored\<close> above). But \<open>response.text\<close> is evaluated in the handler,
  outside the inner \<open>try\<close>: when it raises, the body-parsing step raises, nothing is
  stored under \<open>response_body\<close>, and the result is the one of a failed request. Here
  the body of request 3 is not JSON and its text cannot be decoded.
\<close>

theorem undecodable_text_not_stored:
  "json (demo_response 3) = Inl (PyException ''Expecting value'')
   \<and> request_outcome (exchange_of undecodable_env 3)
       = Inr ((demo_response 3)\<lparr>text' := Inl ''UTF-16 stream does not start with BOM''\<rparr>)
   \<and> request_result demo_tester undecodable_env 3 = Inr (result_of demo_tester undecodable_env 3)
   \<and> map_of (result_of demo_tester undecodable_env 3) ''response_body'' = None
   \<and> map_of (result_of demo_tester undecodable_env 3) ''error''
       = Some (PStr ''UTF-16 stream does not start with BOM'')"
  by (simp add: result_of_def request_result_def dict_update_def update_conv'
      undecodable_env_def demo_env_def demo_exchange_def demo_response_def)

text \<open>
  C7, as stated, fails: \<open>_log_result\<close> is called outside the \<open>try\<close> block, so an
  exception of the log append leaves \<open>make_request\<close>. Here the append of request 2
  fails and the call raises instead of returning a result.
\<close>

theorem make_request_raises_counterexample:
  "make_request demo_tester faulty_env Map.empty 2 = (Inl (PyException ''Permission denied''), Map.empty)"
  by (simp add: make_request_eq raises_def faulty_env_def demo_env_def demo_exchange_def)

text \<open>
  C7, amended. A failure of the request itself that is an \<open>Exception\<close> is captured:
  when the log append succeeds, \<open>make_request\<close> returns a result, with the message
  under \<open>error\<close> if the request raised. \<open>make_request\<close> raises only the exception of
  the log append, or an exception of the request that is outside \<open>Exception\<close>.
\<close>

theorem make_request_raises_only_uncaught:
  "((\<forall>msg. request_outcome (exchange_of ev request_id) \<noteq> Inl (PyBaseException msg))
      \<and> log_fault (exchange_of ev request_id) = None \<longrightarrow>
      (\<exists>r fs'. make_request self ev fs request_id = (Inr r, fs')
         \<and> (\<forall>msg. request_outcome (exchange_of ev request_id) = Inl (PyException msg) \<longrightarrow>
               map_of r ''error'' = Some (PStr msg))))
   \<and> (\<forall>x fs'. make_request self ev fs request_id = (Inl x, fs') \<longrightarrow>
         log_fault (exchange_of ev request_id) = Some x
       \<or> (\<exists>msg. x = PyBaseException msg \<and> request_outcome (exchange_of ev request_id) = Inl x))"
proof (intro conjI impI allI)
  assume a: "(\<forall>msg. request_outcome (exchange_of ev request_id) \<noteq> Inl (PyBaseException msg))
      \<and> log_fault (exchange_of ev request_id) = None"
  let ?e = "exchange_of ev request_id"
  show "\<exists>r fs'. make_request self ev fs request_id = (Inr r, fs')
         \<and> (\<forall>msg. request_outcome ?e = Inl (PyException msg) \<longrightarrow> map_of r ''error'' = Some (PStr msg))"
  proof (cases ?e rule: body_cases)
    case (stored resp v)
    from request_result_response [OF stored, of self] a show ?thesis
      by (auto simp: make_request_def log_result_def stored)
  next
    case (undecodable resp msg)
    from request_result_undecodable [OF undecodable, of self] a show ?thesis
      by (auto simp: make_request_def log_result_def undecodable)
  next
    case (failed msg)
    from request_result_exception [OF failed, of self] a show ?thesis
      by (auto simp: make_request_def log_result_def failed)
  next
    case (uncaught msg)
    with a show ?thesis by simp
  qed
next
  fix x fs'
  assume "make_request self ev fs request_id = (Inl x, fs')"
  from make_request_Inl [OF this]
  show "log_fault (exchange_of ev request_id) = Some x
       \<or> (\<exists>msg. x = PyBaseException msg \<and> request_outcome (exchange_of ev request_id) = Inl x)"
    by (auto simp: request_result_Inl_iff)
qed

theorem make_request_raises_only_uncaught_witness:
  "fst (make_request demo_tester demo_env Map.empty 2) = Inr (result_of demo_tester demo_env 2)
   \<and> map_of (result_of demo_tester demo_env 2) ''error'' = Some (PStr ''timed out'')
   \<and> log_fault (exchange_of faulty_env 2) = Some (PyException ''Permission denied'')"
proof -
  have a: "(\<forall>msg. request_outcome (exchange_of demo_env 2) \<noteq> Inl (PyBaseException msg))
      \<and> log_fault (exchange_of demo_env 2) = None"
    by (simp add: demo_env_def demo_exchange_def)
  have o: "request_outcome (exchange_of demo_env 2) = Inl (PyException ''timed out'')"
    by (simp add: demo_env_def demo_exchange_def)
  have r: "fst (make_request demo_tester demo_env Map.empty 2) = Inr (result_of demo_tester demo_env 2)"
    by (simp add: make_request_eq raises_def demo_env_def demo_exchange_def)
  have f: "make_request demo_tester faulty_env Map.empty 2 = (Inl (PyException ''Permission denied''), Map.empty)"
    by (simp add: make_request_eq raises_def faulty_env_def demo_env_def demo_exchange_def)
  from make_request_raises_only_uncaught [of demo_env 2 demo_tester Map.empty] a o r
  have "map_of (result_of demo_tester demo_env 2) ''error'' = Some (PStr ''timed out'')"
    by auto
  moreover from make_request_raises_only_uncaught [of faulty_env 2 demo_tester Map.empty] f
  have "log_fault (exchange_of faulty_env 2) = Some (PyException ''Permission denied'')"
    by auto
  ultimately show ?thesis using r by simp
qed


section \<open>The run\<close>

text \<open>
  C1, as stated, fails: \<open>run\<close> has no \<open>return\<close> statement and drops what
  \<open>gather\<close> returns, so its value is \<open>None\<close> and not the sequence of results;
  \<open>self.results\<close> is still the empty list that \<open>__init__\<close> stored.
\<close>

theorem run_returns_None_counterexample:
  "total_requests demo_tester = 3 \<and> concurrent_requests demo_tester = 2
   \<and> fst (run demo_tester demo_env Map.empty) = Inr None \<and> results demo_tester = []"
  by (simp add: demo_run) (simp add: demo_tester_def init_def)

text \<open>
  C1, amended. With \<open>total_requests \<ge> 0\<close> and \<open>concurrent_requests \<ge> 1\<close>, in a run
  in which no \<open>make_request\<close> raises, \<open>run\<close> returns \<open>None\<close>; it has dispatched the
  request ids \<open>1..total_requests\<close> in ascending order, and the results returned by the
  tasks are \<open>total_requests\<close> many, their request ids being \<open>1..total_requests\<close> once
  sorted: they come in completion order.
\<close>

theorem run_dispatch_order:
  assumes "0 \<le> total_requests self" and "1 \<le> concurrent_requests self"
    and "\<forall>j\<in>{1..total_requests self}. raises ev j = None"
  shows "fst (run self ev fs) = Inr None
       \<and> dispatched (run_trace self ev fs) = [1..total_requests self]
       \<and> sort (map fst (completed (run_trace self ev fs))) = [1..total_requests self]
       \<and> length (completed (run_trace self ev fs)) = nat (total_requests self)"
proof -
  note c = run_complete [OF assms(3), of fs]
  have s: "sort (map fst (completed (run_trace self ev fs))) = [1..total_requests self]"
    using c(5) by (intro properties_for_sort) simp_all
  have "length (map fst (completed (run_trace self ev fs))) = length [1..total_requests self]"
    using c(5) by (metis size_mset)
  then have "length (completed (run_trace self ev fs)) = nat (total_requests self)"
    using assms(1) by simp
  with c(1,2) s show ?thesis by simp
qed

theorem run_dispatch_order_witness:
  "0 \<le> total_requests demo_tester \<and> 1 \<le> concurrent_requests demo_tester
   \<and> fst (run demo_tester demo_env Map.empty) = Inr None
   \<and> dispatched (run_trace demo_tester demo_env Map.empty) = [1, 2, 3]
   \<and> map fst (completed (run_trace demo_tester demo_env Map.empty)) = [2, 1, 3]
   \<and> sort (map fst (completed (run_trace demo_tester demo_env Map.empty))) = [1, 2, 3]"
proof -
  have a: "0 \<le> total_requests demo_tester" "1 \<le> concurrent_requests demo_tester"
    by (simp_all add: demo_tester_def init_def)
  have n: "\<forall>j\<in>{1..total_requests demo_tester}. raises demo_env j = None"
    by (simp add: raises_def demo_env_def demo_exchange_def)
  have u: "[1..total_requests demo_tester] = [1, 2, 3]"
    by (simp add: demo_tester_def init_def upto.simps)
  have m: "map fst (completed (run_trace demo_tester demo_env Map.empty)) = [2, 1, 3]"
    by (simp add: run_trace_def demo_run)
  from run_dispatch_order [OF a n, of Map.empty] a m show ?thesis
    unfolding u by simp
qed

text \<open>
  C4, as stated, fails on a run that a log error aborts: here the append of request 2
  fails, request 2 finishes first in its batch, \<open>run\<close> raises, request 3 is never
  dispatched and no result is returned.
\<close>

theorem aborted_run_counterexample:
  "total_requests demo_tester = 3
   \<and> fst (run demo_tester faulty_env Map.empty) = Inl (PyException ''Permission denied'')
   \<and> dispatched (run_trace demo_tester faulty_env Map.empty) = [1, 2]
   \<and> completed (run_trace demo_tester faulty_env Map.empty) = []"
  by (simp add: run_trace_def run_def range_py_def gather_def make_request_eq raises_def
      demo_tester_def init_def faulty_env_def demo_env_def demo_exchange_def upt_rec Let_def)

text \<open>
  C4, amended. With \<open>total_requests = N \<ge> 0\<close>, in a run in which no \<open>make_request\<close>
  raises, the dispatched request ids are \<open>1..N\<close> in this order, whatever the responses;
  the results returned are one per request id, each the result built for its id and
  carrying it under \<open>request_id\<close>; and the log file has gained exactly their lines.
\<close>

theorem one_result_per_request:
  assumes "0 \<le> total_requests self"
    and "\<forall>j\<in>{1..total_requests self}. raises ev j = None"
  shows "fst (run self ev fs) = Inr None
       \<and> dispatched (run_trace self ev fs) = [1..total_requests self]
       \<and> distinct (map fst (completed (run_trace self ev fs)))
       \<and> set (map fst (completed (run_trace self ev fs))) = {1..total_requests self}
       \<and> (\<forall>(j, r)\<in>set (completed (run_trace self ev fs)).
             r = result_of self ev j \<and> map_of r ''request_id'' = Some (PInt j))
       \<and> file_content (files_of (snd (run self ev fs))) (log_file self)
           = file_content fs (log_file self) @ log_lines ev (run_trace self ev fs)"
proof -
  note c = run_complete [OF assms(2), of fs]
  let ?ids = "map fst (completed (run_trace self ev fs))"
  have d: "distinct ?ids"
    using c(5) by (metis distinct_upto mset_eq_imp_distinct_iff)
  have s: "set ?ids = {1..total_requests self}"
    using c(5) by (metis mset_eq_setD set_upto)
  have r: "\<forall>(j, r)\<in>set (completed (run_trace self ev fs)).
             r = result_of self ev j \<and> map_of r ''request_id'' = Some (PInt j)"
  proof (clarify, rule conjI)
    fix j r
    assume m: "(j, r) \<in> set (completed (run_trace self ev fs))"
    then show e: "r = result_of self ev j" unfolding c(4) by auto
    from m have "j \<in> set ?ids" by force
    with s assms(2) have "raises ev j = None" by simp
    then show "map_of r ''request_id'' = Some (PInt j)"
      unfolding e by (rule result_of_request_id)
  qed
  have f: "file_content (files_of (snd (run self ev fs))) (log_file self)
           = file_content fs (log_file self) @ log_lines ev (run_trace self ev fs)"
    using run_files [of self ev fs] by (simp add: files_inv_def run_trace_def)
  from c(1,2) d s r f show ?thesis by blast
qed

theorem one_result_per_request_witness:
  "0 \<le> total_requests demo_tester
   \<and> dispatched (run_trace demo_tester demo_env Map.empty) = [1, 2, 3]
   \<and> map fst (completed (run_trace demo_tester demo_env Map.empty)) = [2, 1, 3]
   \<and> set (map fst (completed (run_trace demo_tester demo_env Map.empty))) = {1..3}
   \<and> file_content (files_of (snd (run demo_tester demo_env Map.empty))) ''log.jsonl''
        = ''{2}\<newline>{1}\<newline>{3}\<newline>''"
proof -
  have a: "0 \<le> total_requests demo_tester"
    by (simp add: demo_tester_def init_def)
  have n: "\<forall>j\<in>{1..total_requests demo_tester}. raises demo_env j = None"
    by (simp add: raises_def demo_env_def demo_exchange_def)
  have t: "total_requests demo_tester = 3"
    by (simp add: demo_tester_def init_def)
  have u: "[1..3] = [1, 2, 3 :: int]"
    by (simp add: upto.simps)
  have m: "map fst (completed (run_trace demo_tester demo_env Map.empty)) = [2, 1, 3]"
    by (simp add: run_trace_def demo_run)
  have f: "file_content (files_of (snd (run demo_tester demo_env Map.empty))) ''log.jsonl''
        = ''{2}\<newline>{1}\<newline>{3}\<newline>''"
    by (simp add: demo_run file_content_def)
  from one_result_per_request [OF a n, of Map.empty] have
    "dispatched (run_trace demo_tester demo_env Map.empty) = [1, 2, 3]"
    "set (map fst (completed (run_trace demo_tester demo_env Map.empty))) = {1..3}"
    unfolding t u by blast+
  with a m f show ?thesis by blast
qed

text \<open>
  C8, as stated, fails for an append error that is not the first exception of its batch:
  \<open>gather\<close> has already failed and drops it. Here the appends of requests 1 and 2
  both fail; the task of request 2 raises first and \<open>run\<close> raises its error, the task
  of request 1 then raises too, and its error never reaches the caller.
\<close>

theorem dropped_log_error_counterexample:
  "make_request demo_tester two_fault_env Map.empty 1
     = (Inl (PyException ''No space left on device''), Map.empty)
   \<and> raised (run_trace demo_tester two_fault_env Map.empty)
       = [(2, PyException ''Permission denied''), (1, PyException ''No space left on device'')]
   \<and> fst (run demo_tester two_fault_env Map.empty) = Inl (PyException ''Permission denied'')"
  by (simp add: run_trace_def run_def range_py_def gather_def make_request_eq raises_def
      demo_tester_def init_def two_fault_env_def demo_env_def demo_exchange_def upt_rec Let_def)

text \<open>
  C8, amended. An exception of the log append is raised by \<open>make_request\<close> (unless the
  request already ended with an exception outside \<open>Exception\<close>). A run in which the
  append of some request in \<open>1..total_requests\<close> fails ends with an exception: \<open>run\<close>
  raises the first exception that a task raises, and after it no request is dispatched
  and no batch awaited; only tasks of the same batch may still finish, and what they
  raise is dropped. When the failing append is the only thing that raises, \<open>run\<close>
  raises its exception.
\<close>

theorem first_log_error_aborts_run:
  "(log_fault (exchange_of ev j) = Some x
      \<and> (\<forall>msg. request_outcome (exchange_of ev j) \<noteq> Inl (PyBaseException msg)) \<longrightarrow>
      make_request self ev fs j = (Inl x, fs))
   \<and> (j \<in> {1..total_requests self} \<and> log_fault (exchange_of ev j) \<noteq> None \<longrightarrow>
        (\<exists>y i tr' tr''. fst (run self ev fs) = Inl y
           \<and> run_trace self ev fs = tr' @ Raised i y # tr''
           \<and> raised tr' = [] \<and> dispatched tr'' = [] \<and> gathered tr'' = []
           \<and> raises ev i = Some y))
   \<and> (j \<in> {1..total_requests self} \<and> raises ev j = Some x \<and> (\<forall>i. i \<noteq> j \<longrightarrow> raises ev i = None) \<longrightarrow>
        fst (run self ev fs) = Inl x)"
proof (intro conjI impI)
  assume a: "log_fault (exchange_of ev j) = Some x
      \<and> (\<forall>msg. request_outcome (exchange_of ev j) \<noteq> Inl (PyBaseException msg))"
  then have "raises ev j = Some x"
    by (cases "exchange_of ev j" rule: outcome_cases) (auto simp: raises_def)
  then show "make_request self ev fs j = (Inl x, fs)"
    by (simp add: make_request_eq)
next
  assume a: "j \<in> {1..total_requests self} \<and> log_fault (exchange_of ev j) \<noteq> None"
  then have "raises ev j \<noteq> None" by (simp add: log_fault_raises)
  with a show "\<exists>y i tr' tr''. fst (run self ev fs) = Inl y
           \<and> run_trace self ev fs = tr' @ Raised i y # tr''
           \<and> raised tr' = [] \<and> dispatched tr'' = [] \<and> gathered tr'' = []
           \<and> raises ev i = Some y"
    by (intro run_raises [of j]) simp_all
next
  assume a: "j \<in> {1..total_requests self} \<and> raises ev j = Some x \<and> (\<forall>i. i \<noteq> j \<longrightarrow> raises ev i = None)"
  then have "\<exists>y i tr' tr''. fst (run self ev fs) = Inl y
           \<and> run_trace self ev fs = tr' @ Raised i y # tr''
           \<and> raised tr' = [] \<and> dispatched tr'' = [] \<and> gathered tr'' = []
           \<and> raises ev i = Some y"
    by (intro run_raises [of j]) simp_all
  then obtain y i where y: "fst (run self ev fs) = Inl y" "raises ev i = Some y" by blast
  with a have "i = j" by (metis option.distinct(1))
  with a y show "fst (run self ev fs) = Inl x" by simp
qed

theorem first_log_error_aborts_run_witness:
  "log_fault (exchange_of faulty_env 2) = Some (PyException ''Permission denied'')
   \<and> make_request demo_tester faulty_env Map.empty 2
        = (Inl (PyException ''Permission denied''), Map.empty)
   \<and> fst (run demo_tester faulty_env Map.empty) = Inl (PyException ''Permission denied'')"
proof -
  have l: "log_fault (exchange_of faulty_env 2) = Some (PyException ''Permission denied'')
      \<and> (\<forall>msg. request_outcome (exchange_of faulty_env 2) \<noteq> Inl (PyBaseException msg))"
    by (simp add: faulty_env_def demo_env_def demo_exchange_def)
  have r: "2 \<in> {1..total_requests demo_tester}
      \<and> raises faulty_env 2 = Some (PyException ''Permission denied'')
      \<and> (\<forall>i. i \<noteq> 2 \<longrightarrow> raises faulty_env i = None)"
    by (simp add: raises_def faulty_env_def demo_env_def demo_exchange_def demo_tester_def init_def)
  from first_log_error_aborts_run [of faulty_env 2 "PyException ''Permission denied''" demo_tester Map.empty]
    l r show ?thesis by blast
qed

text \<open>
  C3. With \<open>total_requests \<ge> 0\<close> and \<open>concurrent_requests = c \<ge> 1\<close>, in every run
  (also one that an exception ends): the batches that \<open>run\<close> awaits, one after the
  other, are consecutive pieces of the dispatched request ids, which are a prefix of
  \<open>1..total_requests\<close> and all of it when no \<open>make_request\<close> raises; no batch is empty
  or larger than \<open>c\<close>, and every batch but the last has exactly \<open>c\<close> requests; when
  request \<open>j\<close> is dispatched exactly \<open>(j - 1) mod c\<close> invocations are in flight, so the
  first request of a batch is dispatched when every earlier request has finished; and at
  no point are more than \<open>c\<close> invocations in flight.
\<close>

theorem run_batches_bounded:
  assumes "0 \<le> total_requests self" and "1 \<le> concurrent_requests self"
  shows "concat (gathered (run_trace self ev fs)) = dispatched (run_trace self ev fs)
       \<and> prefix (dispatched (run_trace self ev fs)) [1..total_requests self]
       \<and> ((\<forall>j\<in>{1..total_requests self}. raises ev j = None) \<longrightarrow>
             concat (gathered (run_trace self ev fs)) = [1..total_requests self])
       \<and> (\<forall>b\<in>set (gathered (run_trace self ev fs)).
             b \<noteq> [] \<and> int (length b) \<le> concurrent_requests self)
       \<and> (\<forall>b\<in>set (butlast (gathered (run_trace self ev fs))).
             int (length b) = concurrent_requests self)
       \<and> batch_aligned (concurrent_requests self) (run_trace self ev fs)
       \<and> bounded_in_flight (concurrent_requests self) (run_trace self ev fs)"
proof -
  from assms(2) have b: "batch_size self = concurrent_requests self"
    by (simp add: batch_size_def)
  note f = run_flight_facts [of self ev fs, unfolded b]
  note p = run_dispatched_prefix [of self ev fs]
  have "(\<forall>j\<in>{1..total_requests self}. raises ev j = None) \<longrightarrow>
             concat (gathered (run_trace self ev fs)) = [1..total_requests self]"
    using run_complete(3) [of self ev fs] by blast
  with f p show ?thesis by blast
qed

theorem run_batches_bounded_witness:
  "0 \<le> total_requests demo_tester \<and> 1 \<le> concurrent_requests demo_tester
   \<and> gathered (run_trace demo_tester demo_env Map.empty) = [[1, 2], [3]]
   \<and> concat (gathered (run_trace demo_tester demo_env Map.empty)) = [1, 2, 3]
   \<and> run_trace demo_tester demo_env Map.empty ! 5 = Dispatched 3
   \<and> in_flight (take 5 (run_trace demo_tester demo_env Map.empty)) = 0
   \<and> in_flight (take 3 (run_trace demo_tester demo_env Map.empty)) \<le> 2"
proof -
  have a: "0 \<le> total_requests demo_tester" "1 \<le> concurrent_requests demo_tester"
    and c: "concurrent_requests demo_tester = 2"
    by (simp_all add: demo_tester_def init_def)
  have g: "gathered (run_trace demo_tester demo_env Map.empty) = [[1, 2], [3]]"
    and d: "dispatched (run_trace demo_tester demo_env Map.empty) = [1, 2, 3]"
    and e: "run_trace demo_tester demo_env Map.empty ! 5 = Dispatched 3"
    and l: "length (run_trace demo_tester demo_env Map.empty) = 8"
    by (simp_all add: run_trace_def demo_run)
  from run_batches_bounded [OF a, of demo_env Map.empty] have
    1: "concat (gathered (run_trace demo_tester demo_env Map.empty))
          = dispatched (run_trace demo_tester demo_env Map.empty)"
    and 2: "batch_aligned 2 (run_trace demo_tester demo_env Map.empty)"
    and 3: "bounded_in_flight 2 (run_trace demo_tester demo_env Map.empty)"
    unfolding c by blast+
  from 2 have "5 < length (run_trace demo_tester demo_env Map.empty) \<longrightarrow>
      run_trace demo_tester demo_env Map.empty ! 5 = Dispatched 3 \<longrightarrow>
      in_flight (take 5 (run_trace demo_tester demo_env Map.empty)) = (3 - 1) mod 2"
    unfolding batch_aligned_def by blast
  with e l have "in_flight (take 5 (run_trace demo_tester demo_env Map.empty)) = 0"
    by simp
  moreover from 3 l have "in_flight (take 3 (run_trace demo_tester demo_env Map.empty)) \<le> 2"
    unfolding bounded_in_flight_def by simp
  ultimately show ?thesis using a g d e 1 by simp
qed

text \<open>
  C2, as stated, fails: neither \<open>__init__\<close> nor \<open>run\<close> checks the configuration.
  With \<open>concurrent_requests = 0\<close> the run raises nothing and dispatches all three
  requests.
\<close>

theorem no_validation_counterexample:
  "concurrent_requests zero_tester = 0 \<and> total_requests zero_tester = 3
   \<and> fst (run zero_tester demo_env Map.empty) = Inr None
   \<and> dispatched (run_trace zero_tester demo_env Map.empty) = [1, 2, 3]"
  by (simp add: run_trace_def zero_run) (simp add: zero_tester_def init_def)

text \<open>
  C2, amended. \<open>__init__\<close> stores \<open>total_requests\<close> and \<open>concurrent_requests\<close> as
  given. With \<open>concurrent_requests \<le> 0\<close> the run awaits every request alone: each batch
  has one request, at most one invocation is in flight, and when no \<open>make_request\<close>
  raises the run returns \<open>None\<close> after dispatching \<open>1..total_requests\<close>. With
  \<open>total_requests < 0\<close> the run dispatches nothing, touches no file and returns
  \<open>None\<close>. No configuration error is raised in either case.
\<close>

theorem run_without_validation:
  "total_requests (init ev' url n c hs ps m lf t) = n
   \<and> concurrent_requests (init ev' url n c hs ps m lf t) = c
   \<and> (concurrent_requests self \<le> 0 \<longrightarrow>
        (\<forall>b\<in>set (gathered (run_trace self ev fs)). length b = 1)
      \<and> bounded_in_flight 1 (run_trace self ev fs)
      \<and> ((\<forall>j\<in>{1..total_requests self}. raises ev j = None) \<longrightarrow>
            fst (run self ev fs) = Inr None
          \<and> dispatched (run_trace self ev fs) = [1..total_requests self]))
   \<and> (total_requests self < 0 \<longrightarrow>
        run self ev fs = (Inr None, \<lparr>files_of = fs, tasks = [], trace = []\<rparr>))"
proof (intro conjI impI)
  show "total_requests (init ev' url n c hs ps m lf t) = n"
    and "concurrent_requests (init ev' url n c hs ps m lf t) = c"
    by (simp_all add: init_def)
next
  assume "concurrent_requests self \<le> 0"
  then have b: "batch_size self = 1" by (simp add: batch_size_def)
  note f = run_flight_facts [of self ev fs, unfolded b]
  from f(1) show "bounded_in_flight 1 (run_trace self ev fs)" .
  show "\<forall>b\<in>set (gathered (run_trace self ev fs)). length b = 1"
  proof
    fix b
    assume "b \<in> set (gathered (run_trace self ev fs))"
    with f(3) have "b \<noteq> []" "int (length b) \<le> 1" by blast+
    then show "length b = 1" by (cases b) simp_all
  qed
next
  assume "\<forall>j\<in>{1..total_requests self}. raises ev j = None"
  then show "fst (run self ev fs) = Inr None"
    and "dispatched (run_trace self ev fs) = [1..total_requests self]"
    by (rule run_complete)+
next
  assume "total_requests self < 0"
  then show "run self ev fs = (Inr None, \<lparr>files_of = fs, tasks = [], trace = []\<rparr>)"
    by (simp add: run_def range_py_def)
qed

theorem run_without_validation_witness:
  "concurrent_requests zero_tester \<le> 0
   \<and> gathered (run_trace zero_tester demo_env Map.empty) = [[1], [2], [3]]
   \<and> fst (run zero_tester demo_env Map.empty) = Inr None
   \<and> dispatched (run_trace zero_tester demo_env Map.empty) = [1, 2, 3]
   \<and> run (zero_tester\<lparr>total_requests := - 2\<rparr>) demo_env Map.empty
        = (Inr None, \<lparr>files_of = Map.empty, tasks = [], trace = []\<rparr>)"
proof -
  have c: "concurrent_requests zero_tester \<le> 0" and t: "total_requests zero_tester = 3"
    by (simp_all add: zero_tester_def init_def)
  have n: "\<forall>j\<in>{1..total_requests zero_tester}. raises demo_env j = None"
    by (simp add: raises_def demo_env_def demo_exchange_def)
  have u: "[1..3] = [1, 2, 3 :: int]"
    by (simp add: upto.simps)
  have g: "gathered (run_trace zero_tester demo_env Map.empty) = [[1], [2], [3]]"
    by (simp add: run_trace_def zero_run)
  have neg: "total_requests (zero_tester\<lparr>total_requests := - 2\<rparr>) < 0" by simp
  from run_without_validation [of _ _ _ _ _ _ _ _ _ zero_tester demo_env Map.empty] c n
  have "fst (run zero_tester demo_env Map.empty) = Inr None"
    "dispatched (run_trace zero_tester demo_env Map.empty) = [1, 2, 3]"
    unfolding t u by blast+
  moreover from run_without_validation [of _ _ _ _ _ _ _ _ _ "zero_tester\<lparr>total_requests := - 2\<rparr>" demo_env Map.empty] neg
  have "run (zero_tester\<lparr>total_requests := - 2\<rparr>) demo_env Map.empty
        = (Inr None, \<lparr>files_of = Map.empty, tasks = [], trace = []\<rparr>)"
    by blast
  ultimately show ?thesis using c g by blast
qed

text \<open>
  C10. \<open>_log_result\<close> leaves the log file as it was, followed by the new line or, when
  it raises, by nothing. After \<open>run\<close>, however it ends, the log file holds what it held
  before, followed by the lines of the results returned in the run, and every other file
  is as before. After \<open>run_stress_test\<close> (when its own \<open>mkdir\<close> and \<open>open\<close> do not
  raise) the log file holds the lines of the run only: the truncation is in
  \<open>run_stress_test\<close>.
\<close>

theorem log_only_appended:
  "file_content (snd (log_result self ev fault fs r)) (log_file self)
     = file_content fs (log_file self)
       @ (case fault of None \<Rightarrow> json_dumps ev r @ [CHR 0x0A] | Some x \<Rightarrow> [])
   \<and> file_content (files_of (snd (run self ev fs))) (log_file self)
       = file_content fs (log_file self) @ log_lines ev (run_trace self ev fs)
   \<and> (\<forall>p. p \<noteq> log_file self \<longrightarrow> files_of (snd (run self ev fs)) p = fs p)
   \<and> file_content (files_of (snd (run_stress_test url n c hs ps m lf t None None ev fs))) lf
       = log_lines ev (trace (snd (run_stress_test url n c hs ps m lf t None None ev fs)))"
proof (intro conjI)
  show "file_content (snd (log_result self ev fault fs r)) (log_file self)
     = file_content fs (log_file self)
       @ (case fault of None \<Rightarrow> json_dumps ev r @ [CHR 0x0A] | Some x \<Rightarrow> [])"
    by (simp add: log_result_def file_content_def split: option.splits)
  from run_files [of self ev fs]
  show "file_content (files_of (snd (run self ev fs))) (log_file self)
       = file_content fs (log_file self) @ log_lines ev (run_trace self ev fs)"
    and "\<forall>p. p \<noteq> log_file self \<longrightarrow> files_of (snd (run self ev fs)) p = fs p"
    by (simp_all add: files_inv_def run_trace_def)
  let ?tester = "init ev url n c hs ps m lf t"
  have s: "snd (run_stress_test url n c hs ps m lf t None None ev fs) = snd (run ?tester ev (fs(lf \<mapsto> [])))"
    by (simp add: run_stress_test_def Let_def split: prod.splits sum.splits)
  have l: "log_file ?tester = lf" by (simp add: init_def)
  from run_files [of ?tester ev "fs(lf \<mapsto> [])"]
  show "file_content (files_of (snd (run_stress_test url n c hs ps m lf t None None ev fs))) lf
       = log_lines ev (trace (snd (run_stress_test url n c hs ps m lf t None None ev fs)))"
    unfolding s by (simp add: files_inv_def l file_content_def)
qed

theorem log_only_appended_witness:
  "file_content old_files ''log.jsonl'' = ''old\<newline>''
   \<and> file_content (files_of (snd (run demo_tester demo_env old_files))) ''log.jsonl''
       = ''old\<newline>{2}\<newline>{1}\<newline>{3}\<newline>''
   \<and> files_of (snd (run demo_tester demo_env old_files)) ''notes.txt'' = Some ''keep''
   \<and> file_content (files_of (snd (run_stress_test ''http://localhost/todos'' 3 2 None None ''GET''
         ''log.jsonl'' 60 None None demo_env old_files))) ''log.jsonl''
       = ''{2}\<newline>{1}\<newline>{3}\<newline>''"
proof -
  have l: "log_file demo_tester = ''log.jsonl''"
    by (simp add: demo_tester_def init_def)
  have o: "file_content old_files ''log.jsonl'' = ''old\<newline>''" "old_files ''notes.txt'' = Some ''keep''"
    by (simp_all add: old_files_def file_content_def)
  have t: "log_lines demo_env (run_trace demo_tester demo_env old_files) = ''{2}\<newline>{1}\<newline>{3}\<newline>''"
    unfolding run_trace_def demo_run_any by (simp add: demo_log_lines)
  have i: "init demo_env ''http://localhost/todos'' 3 2 None None ''GET'' ''log.jsonl'' 60 = demo_tester"
    by (simp add: demo_tester_def)
  have s: "log_lines demo_env (trace (snd (run_stress_test ''http://localhost/todos'' 3 2 None None ''GET''
         ''log.jsonl'' 60 None None demo_env old_files))) = ''{2}\<newline>{1}\<newline>{3}\<newline>''"
    unfolding run_stress_test_def i by (simp add: demo_run_any demo_log_lines)
  note w = log_only_appended [of demo_tester demo_env None old_files "[]" "''http://localhost/todos''"
      3 2 None None "''GET''" "''log.jsonl''" 60]
  from w have "\<forall>p. p \<noteq> log_file demo_tester \<longrightarrow>
      files_of (snd (run demo_tester demo_env old_files)) p = old_files p"
    by blast
  then have "files_of (snd (run demo_tester demo_env old_files)) ''notes.txt'' = Some ''keep''"
    by (simp add: l o)
  moreover from w have "file_content (files_of (snd (run demo_tester demo_env old_files))) ''log.jsonl''
       = ''old\<newline>{2}\<newline>{1}\<newline>{3}\<newline>''"
    unfolding l t o by simp
  moreover from w have "file_content (files_of (snd (run_stress_test ''http://localhost/todos'' 3 2 None None ''GET''
         ''log.jsonl'' 60 None None demo_env old_files))) ''log.jsonl''
       = ''{2}\<newline>{1}\<newline>{3}\<newline>''"
    unfolding s by simp
  ultimately have "file_content (files_of (snd (run demo_tester demo_env old_files))) ''log.jsonl''
       = ''old\<newline>{2}\<newline>{1}\<newline>{3}\<newline>''
     \<and> files_of (snd (run demo_tester demo_env old_files)) ''notes.txt'' = Some ''keep''
     \<and> file_content (files_of (snd (run_stress_test ''http://localhost/todos'' 3 2 None None ''GET''
         ''log.jsonl'' 60 None None demo_env old_files))) ''log.jsonl''
       = ''{2}\<newline>{1}\<newline>{3}\<newline>''"
    by blast
  with o show ?thesis by simp
qed

end
